theory Spec2Isabelle
  imports Main "HOL-Library.AList"
begin

section \<open>Values, errors and endpoint calls\<close>

text \<open>
  The JavaScript values an endpoint can fulfil with. Only what the provider's control
  flow looks at is kept: whether a value is \<open>null\<close>, whether it is truthy, whether an
  object has a property. Numbers are integers (block heights, counts); \<open>NaN\<close> and
  fractions do not occur in the modelled paths.
\<close>

datatype jsval =
    JNull
  | JUndefined
  | JBool bool
  | JNumber int
  | JBigInt int
  | JString string
  | JArray "jsval list"
  | JObject "(string \<times> jsval) list"

text \<open>JavaScript's \<open>ToBoolean\<close>: what \<open>!x\<close> and \<open>x && y\<close> test.\<close>

fun truthy :: "jsval \<Rightarrow> bool" where
  "truthy JNull = False"
| "truthy JUndefined = False"
| "truthy (JBool b) = b"
| "truthy (JNumber n) = (n \<noteq> 0)"
| "truthy (JBigInt n) = (n \<noteq> 0)"
| "truthy (JString s) = (s \<noteq> [])"
| "truthy (JArray xs) = True"
| "truthy (JObject fs) = True"

datatype error =
    RpcCallTimeout
  | EndpointError
  | ValidationFailed
  | TypeError
  | EmptyRpcUrls
  | AllRpcNodesFailed
  | AllRpcNodesFailedForGetBlockNumber
  | WriteFileError

text \<open>
  Property read \<open>v.k\<close> on a value that is neither \<open>null\<close> nor \<open>undefined\<close> (the
  validators only read a property behind \<open>v && ...\<close>): an own property of an object,
  \<open>undefined\<close> otherwise.
\<close>

fun getProp :: "jsval \<Rightarrow> string \<Rightarrow> jsval" where
  "getProp (JObject fs) k = (case map_of fs k of Some v \<Rightarrow> v | None \<Rightarrow> JUndefined)"
| "getProp v k = JUndefined"

text \<open>The operator \<open>k in v\<close>: a \<open>TypeError\<close> when \<open>v\<close> is not an object.\<close>

fun inOp :: "string \<Rightarrow> jsval \<Rightarrow> error + bool" where
  "inOp k (JObject fs) = Inr (k \<in> set (map fst fs))"
| "inOp k (JArray xs) = Inr False"
| "inOp k v = Inl TypeError"

text \<open>
  One endpoint's call, as the provider sees it: it resolves with a value or rejects after
  some milliseconds, or never settles. The list of calls of one fan-out is in the
  endpoints' configured order (\<open>this._providers\<close>).
\<close>

datatype 'a rpc = Resolves nat 'a | Rejects nat | Hangs

text \<open>
  \<open>_withTimeout\<close>: the call raced against a timer of \<open>ms\<close> milliseconds. A call that has
  not settled when the timer fires is rejected with "RPC call timeout".
\<close>

fun withTimeout :: "'a rpc \<Rightarrow> nat \<Rightarrow> error + 'a" where
  "withTimeout (Resolves t v) ms = (if t < ms then Inr v else Inl RpcCallTimeout)"
| "withTimeout (Rejects t) ms = (if t < ms then Inl EndpointError else Inl RpcCallTimeout)"
| "withTimeout Hangs ms = Inl RpcCallTimeout"

section \<open>MultinodeJsonRpcProvider\<close>

record provider =
  lastHead :: int
  headTimeoutMs :: nat
  blockTimeoutMs :: nat
  consensusWindow :: int

record provider_options =
  opt_headTimeoutMs :: "nat option"
  opt_blockTimeoutMs :: "nat option"
  opt_consensusWindow :: "int option"

text \<open>The constructor: an empty endpoint list is refused; options default to 500, 3000, 5.\<close>

definition newProvider :: "'u list \<Rightarrow> provider_options \<Rightarrow> error + provider" where
  "newProvider rpcUrls options =
     (if rpcUrls = [] then Inl EmptyRpcUrls
      else Inr \<lparr> lastHead = 0,
                 headTimeoutMs = (case opt_headTimeoutMs options of Some t \<Rightarrow> t | None \<Rightarrow> 500),
                 blockTimeoutMs = (case opt_blockTimeoutMs options of Some t \<Rightarrow> t | None \<Rightarrow> 3000),
                 consensusWindow = (case opt_consensusWindow options of Some w \<Rightarrow> w | None \<Rightarrow> 5) \<rparr>)"

subsection \<open>Consensus head\<close>

text \<open>The locals of \<open>_pickConsensusHead\<close>, for a non-empty \<open>numbers\<close>.\<close>

definition consensusMedian :: "int list \<Rightarrow> int" where
  "consensusMedian numbers =
     (let sorted = sort numbers;
          mid = length sorted div 2
      in if length sorted mod 2 = 1 then sorted ! mid else sorted ! (mid - 1))"

definition consensusInWindow :: "int \<Rightarrow> int list \<Rightarrow> int list" where
  "consensusInWindow window numbers =
     (let sorted = sort numbers;
          median = consensusMedian numbers
      in filter (\<lambda>n. n \<ge> median - window \<and> n \<le> median + window) sorted)"

definition pickConsensusHead :: "provider \<Rightarrow> int list \<Rightarrow> int option" where
  "pickConsensusHead p numbers =
     (if numbers = [] then None
      else
        let sorted = sort numbers;
            inWindow = consensusInWindow (consensusWindow p) numbers;
            pool = (if inWindow \<noteq> [] then inWindow else sorted);
            best = pool ! (length pool - 1)
        in Some (if best < lastHead p then lastHead p else best))"

text \<open>The heights that arrived in time: \<open>nums.filter(n => n !== null)\<close>.\<close>

definition headObservations :: "provider \<Rightarrow> int rpc list \<Rightarrow> int list" where
  "headObservations p calls =
     List.map_filter
       (\<lambda>c. case withTimeout c (headTimeoutMs p) of Inr n \<Rightarrow> Some n | Inl e \<Rightarrow> None) calls"

definition getBlockNumber :: "provider \<Rightarrow> int rpc list \<Rightarrow> error + (int \<times> provider)" where
  "getBlockNumber p calls =
     (case pickConsensusHead p (headObservations p calls) of
        None \<Rightarrow> Inl AllRpcNodesFailedForGetBlockNumber
      | Some consensus \<Rightarrow>
          let p' = (if consensus > lastHead p then p\<lparr>lastHead := consensus\<rparr> else p)
          in Inr (lastHead p', p'))"

text \<open>
  A sequence of \<open>getBlockNumber\<close> calls on one instance: each call sees the ratchet the
  previous ones left. A call that throws leaves the instance as it was.
\<close>

fun getBlockNumberCalls :: "provider \<Rightarrow> int rpc list list \<Rightarrow> (error + int) list \<times> provider" where
  "getBlockNumberCalls p [] = ([], p)"
| "getBlockNumberCalls p (calls # rest) =
     (case getBlockNumber p calls of
        Inl e \<Rightarrow> (let (rs, q) = getBlockNumberCalls p rest in (Inl e # rs, q))
      | Inr (h, p') \<Rightarrow> (let (rs, q) = getBlockNumberCalls p' rest in (Inr h # rs, q)))"

subsection \<open>The height selection as the specification words it\<close>

text \<open>
  Written from the specification's sentences, to be compared with \<open>getBlockNumber\<close>: the
  median is the middle element of the sorted observations (the lower central one for an
  even count), the kept observations are those within the window around it, the selected
  height is the maximum of the kept ones (of all of them if none is kept), and the
  result is the larger of that and the previous ratchet value.
\<close>

definition spec_median :: "int list \<Rightarrow> int" where
  "spec_median obs = sort obs ! ((length obs - 1) div 2)"

definition spec_kept :: "int \<Rightarrow> int list \<Rightarrow> int list" where
  "spec_kept window obs =
     filter (\<lambda>n. spec_median obs - window \<le> n \<and> n \<le> spec_median obs + window) obs"

definition spec_selected :: "int \<Rightarrow> int list \<Rightarrow> int" where
  "spec_selected window obs =
     (if spec_kept window obs = [] then Max (set obs) else Max (set (spec_kept window obs)))"

definition spec_height :: "int \<Rightarrow> int \<Rightarrow> int list \<Rightarrow> int" where
  "spec_height window previous obs = max (spec_selected window obs) previous"

subsection \<open>The parallel executor\<close>

text \<open>
  A validator is the optional second argument of \<open>_executeParallel\<close>. It runs inside the
  endpoint's \<open>try\<close> block, so an exception it raises is caught like any other.
\<close>

type_synonym validator = "jsval \<Rightarrow> error + bool"

text \<open>
  The body of the \<open>map\<close> callback: the endpoint's result if it arrived in time and the
  validator (if any) accepted it, \<open>null\<close> after any exception.
\<close>

definition endpointResult :: "provider \<Rightarrow> validator option \<Rightarrow> jsval rpc \<Rightarrow> jsval" where
  "endpointResult p validate c =
     (case withTimeout c (blockTimeoutMs p) of
        Inl e \<Rightarrow> JNull
      | Inr result \<Rightarrow>
          (case validate of
             None \<Rightarrow> result
           | Some v \<Rightarrow>
               (case v result of
                  Inr True \<Rightarrow> result
                | Inr False \<Rightarrow> JNull
                | Inl e \<Rightarrow> JNull)))"

text \<open>
  \<open>Promise.all\<close> keeps the endpoints' order, whatever the order in which the calls
  settled. \<open>results.find(r => r !== null)\<close> is \<open>undefined\<close> when nothing is found, and
  \<open>if (!ok)\<close> tests the found value for truthiness.
\<close>

definition executeParallel :: "provider \<Rightarrow> validator option \<Rightarrow> jsval rpc list \<Rightarrow> error + jsval" where
  "executeParallel p validate calls =
     (let results = map (endpointResult p validate) calls;
          ok = (case List.find (\<lambda>r. r \<noteq> JNull) results of Some r \<Rightarrow> r | None \<Rightarrow> JUndefined)
      in if \<not> truthy ok then Inl AllRpcNodesFailed else Inr ok)"

subsection \<open>The facade's queries\<close>

text \<open>\<open>b => !!(b && b.hash)\<close>, used for blocks and transactions.\<close>

definition hasHash :: validator where
  "hasHash b = Inr (truthy b \<and> truthy (getProp b ''hash''))"

text \<open>\<open>r => !!(r && "status" in r)\<close>, used for receipts.\<close>

definition hasStatus :: validator where
  "hasStatus r = (if \<not> truthy r then Inr False else inOp ''status'' r)"

definition getBlock :: "provider \<Rightarrow> jsval rpc list \<Rightarrow> error + jsval" where
  "getBlock p calls = executeParallel p (Some hasHash) calls"

definition call :: "provider \<Rightarrow> jsval rpc list \<Rightarrow> error + jsval" where
  "call p calls = executeParallel p None calls"

definition multicall :: "provider \<Rightarrow> jsval rpc list \<Rightarrow> error + jsval" where
  "multicall p calls = executeParallel p None calls"

definition getTransaction :: "provider \<Rightarrow> jsval rpc list \<Rightarrow> error + jsval" where
  "getTransaction p calls = executeParallel p (Some hasHash) calls"

definition getTransactionReceipt :: "provider \<Rightarrow> jsval rpc list \<Rightarrow> error + jsval" where
  "getTransactionReceipt p calls = executeParallel p (Some hasStatus) calls"

definition waitForTransaction :: "provider \<Rightarrow> jsval rpc list \<Rightarrow> error + jsval" where
  "waitForTransaction p calls = executeParallel p (Some hasStatus) calls"

definition getBalance :: "provider \<Rightarrow> jsval rpc list \<Rightarrow> error + jsval" where
  "getBalance p calls = executeParallel p None calls"

definition getFeeData :: "provider \<Rightarrow> jsval rpc list \<Rightarrow> error + jsval" where
  "getFeeData p calls = executeParallel p None calls"

definition send :: "provider \<Rightarrow> jsval rpc list \<Rightarrow> error + jsval" where
  "send p calls = executeParallel p None calls"

text \<open>
  \<open>getLogs\<close>: each endpoint contributes its list, or the empty list after a failure or a
  timeout of three block timeouts. \<open>reduce\<close> without an initial value starts from the
  first list and raises a \<open>TypeError\<close> on an empty array (the constructor refuses an
  empty endpoint list, so that does not arise on a constructed instance).
\<close>

definition logsOf :: "provider \<Rightarrow> 'l list rpc \<Rightarrow> 'l list" where
  "logsOf p c = (case withTimeout c (blockTimeoutMs p * 3) of Inr logs \<Rightarrow> logs | Inl e \<Rightarrow> [])"

definition getLogs :: "provider \<Rightarrow> 'l list rpc list \<Rightarrow> error + 'l list" where
  "getLogs p calls =
     (case map (logsOf p) calls of
        [] \<Rightarrow> Inl TypeError
      | r # rs \<Rightarrow> Inr (foldl (\<lambda>a b. if length b > length a then b else a) r rs))"

subsection \<open>The fan-out selection as the specification words it\<close>

text \<open>
  Written from the specification's sentences, to be compared with \<open>executeParallel\<close>: an
  endpoint is a validated success when its call fulfilled within the timeout and the
  validator, if there is one, accepted the result; the call returns the first validated
  success in the configured order and fails when there is none.
\<close>

definition spec_validated :: "provider \<Rightarrow> validator option \<Rightarrow> jsval rpc \<Rightarrow> jsval option" where
  "spec_validated p validate c =
     (case withTimeout c (blockTimeoutMs p) of
        Inl e \<Rightarrow> None
      | Inr v \<Rightarrow>
          (case validate of
             None \<Rightarrow> Some v
           | Some f \<Rightarrow> if f v = Inr True then Some v else None))"

definition spec_fanOut :: "provider \<Rightarrow> validator option \<Rightarrow> jsval rpc list \<Rightarrow> error + jsval" where
  "spec_fanOut p validate calls =
     (case List.map_filter (spec_validated p validate) calls of
        [] \<Rightarrow> Inl AllRpcNodesFailed
      | v # vs \<Rightarrow> Inr v)"

text \<open>
  What the executor keeps of one endpoint: a validated success that is not \<open>null\<close>
  (\<open>null\<close> is the executor's own mark for a failed endpoint).
\<close>

definition accepted :: "provider \<Rightarrow> validator option \<Rightarrow> jsval rpc \<Rightarrow> jsval option" where
  "accepted p validate c =
     (case spec_validated p validate c of
        None \<Rightarrow> None
      | Some v \<Rightarrow> if v = JNull then None else Some v)"

text \<open>A call that fails for the caller: rejected, or not settled within \<open>ms\<close>.\<close>

definition callFails :: "'a rpc \<Rightarrow> nat \<Rightarrow> bool" where
  "callFails c ms = (case withTimeout c ms of Inl e \<Rightarrow> True | Inr v \<Rightarrow> False)"

text \<open>A fulfilment with \<open>null\<close> turned into a rejection at the same time.\<close>

fun nullAsFailure :: "jsval rpc \<Rightarrow> jsval rpc" where
  "nullAsFailure (Resolves t v) = (if v = JNull then Rejects t else Resolves t v)"
| "nullAsFailure c = c"

section \<open>BlockReader\<close>

text \<open>
  A transaction is represented by its normalised hash (\<open>tx.hash || ''\<close>), the only
  field of a transaction the reader's control flow reads; the other normalised fields
  are carried through unchanged and are left out. A block either lists transaction
  hashes (\<open>typeof block.transactions[0] === 'string'\<close>) or full transaction objects.
\<close>

datatype block_txs = TxHashes "string list" | TxObjects "string list"

record block =
  blk_number :: int
  blk_hash :: "string option"
  blk_timestamp :: int
  blk_transactions :: block_txs

record blockData =
  bd_source :: string
  bd_number :: int
  bd_hash :: "string option"
  bd_timestamp :: int
  bd_transactions :: "string list"

text \<open>
  What happens, in program order: events handed to listeners, and successful writes of
  the checkpoint file.
\<close>

datatype action =
    NewTransaction string
  | NewBlock blockData
  | ErrorEvent error
  | Persisted int

text \<open>
  The checkpoint file \<open>block.txt\<close>: missing or unreadable, or read and handed to
  \<open>parseInt(data, 10)\<close>, whose result is an integer or \<open>NaN\<close> (\<open>None\<close>).
  \<open>saveLastProcessedBlock\<close> writes the decimal digits of an integer, which
  \<open>parseInt\<close> reads back as that integer.
\<close>

datatype file_content = Missing | Content "int option"

text \<open>
  An entry of the trace: the action, with the value of \<open>expectedBlockNumber\<close> (what a
  listener reads through \<open>getCurrentBlockNumber()\<close>) and the content of the checkpoint
  file at the moment the action is made; for a write, the moment it has completed.
\<close>

type_synonym entry = "int \<times> file_content \<times> action"

record reader =
  expectedBlockNumber :: int
  processedBlocks :: "int list"
  processedTransactions :: "string list"
  lastBlockFile :: file_content
  trace :: "entry list"

text \<open>One response of \<open>provider.getBlock(blockNumber, true)\<close>.\<close>

datatype getBlock_result = Throws | Returns "block option"

text \<open>
  What the outside world answers during one run of a reader method: the height, the
  \<open>k\<close>-th response to \<open>getBlock\<close> for each block number, the transaction behind a
  hash (\<open>None\<close> when the call fails or finds nothing), and whether writing a given
  value to the checkpoint file succeeds.
\<close>

record env =
  blockNumber_resp :: "error + int"
  getBlock_resp :: "int \<Rightarrow> nat \<Rightarrow> getBlock_result"
  getTransaction_resp :: "string \<Rightarrow> string option"
  writeFile_ok :: "int \<Rightarrow> bool"

definition maxAttempts :: nat where "maxAttempts = 3"
definition rereadBlocks :: int where "rereadBlocks = 10"
definition maxParallelBlocks :: int where "maxParallelBlocks = 5"

definition newReader :: "file_content \<Rightarrow> reader" where
  "newReader f = \<lparr> expectedBlockNumber = 0, processedBlocks = [], processedTransactions = [],
                   lastBlockFile = f, trace = [] \<rparr>"

definition logAction :: "action \<Rightarrow> reader \<Rightarrow> reader" where
  "logAction a s = s\<lparr>trace := trace s @ [(expectedBlockNumber s, lastBlockFile s, a)]\<rparr>"

definition saveLastProcessedBlock :: "env \<Rightarrow> reader \<Rightarrow> int \<Rightarrow> error + reader" where
  "saveLastProcessedBlock e s blockNumber =
     (if writeFile_ok e blockNumber
      then Inr (logAction (Persisted blockNumber) (s\<lparr>lastBlockFile := Content (Some blockNumber)\<rparr>))
      else Inl WriteFileError)"

subsection \<open>Fetching one block\<close>

text \<open>\<open>block && block.hash\<close>.\<close>

definition blockOk :: "block option \<Rightarrow> bool" where
  "blockOk b = (case b of None \<Rightarrow> False
                | Some blk \<Rightarrow> (case blk_hash blk of None \<Rightarrow> False | Some h \<Rightarrow> h \<noteq> []))"

text \<open>
  The loop of \<open>tryGetBlock\<close>, with the number of \<open>getBlock\<close> invocations and of
  one-second sleeps made so far. After an exception \<open>attempts\<close> is incremented in the
  \<open>catch\<close> block and again by the statement that follows the \<open>try\<close>.
\<close>

function tryGetBlockLoop ::
  "(nat \<Rightarrow> getBlock_result) \<Rightarrow> nat \<Rightarrow> nat \<Rightarrow> nat \<Rightarrow> nat \<Rightarrow> block option \<times> nat \<times> nat" where
  "tryGetBlockLoop resp maxA attempts calls sleeps =
     (if attempts < maxA then
        (case resp calls of
           Returns b \<Rightarrow>
             if blockOk b then (b, calls + 1, sleeps)
             else tryGetBlockLoop resp maxA (attempts + 1) (calls + 1) sleeps
         | Throws \<Rightarrow>
             tryGetBlockLoop resp maxA (attempts + 1 + 1) (calls + 1)
               (if attempts + 1 < maxA then sleeps + 1 else sleeps))
      else (None, calls, sleeps))"
  by pat_completeness auto
termination
  by (relation "measure (\<lambda>(resp, maxA, attempts, calls, sleeps). maxA - attempts)") auto

definition tryGetBlock :: "(nat \<Rightarrow> getBlock_result) \<Rightarrow> nat \<Rightarrow> block option \<times> nat \<times> nat" where
  "tryGetBlock resp maxA = tryGetBlockLoop resp maxA 0 0 0"

subsection \<open>Processing one block\<close>

definition processTransaction :: "string \<Rightarrow> reader \<Rightarrow> reader" where
  "processTransaction h s =
     (if h \<notin> set (processedTransactions s) then
        let s1 = s\<lparr>processedTransactions := processedTransactions s @ [h]\<rparr>;
            s2 = logAction (NewTransaction h) s1
        in if length (processedTransactions s2) > 2000
           then s2\<lparr>processedTransactions := tl (processedTransactions s2)\<rparr>
           else s2
      else s)"

definition processBlock :: "env \<Rightarrow> reader \<Rightarrow> block \<Rightarrow> blockData \<times> reader" where
  "processBlock e s blk =
     (let txs = (case blk_transactions blk of
                   TxHashes hs \<Rightarrow> List.map_filter (getTransaction_resp e) hs
                 | TxObjects ts \<Rightarrow> ts);
          s1 = fold processTransaction txs s;
          data = \<lparr> bd_source = ''READER'', bd_number = blk_number blk, bd_hash = blk_hash blk,
                   bd_timestamp = blk_timestamp blk, bd_transactions = txs \<rparr>;
          s2 = (if bd_number data \<notin> set (processedBlocks s1) then
                  let s' = s1\<lparr>processedBlocks := processedBlocks s1 @ [bd_number data]\<rparr>
                  in if length (processedBlocks s') > 100
                     then s'\<lparr>processedBlocks := tl (processedBlocks s')\<rparr>
                     else s'
                else s1)
      in (data, s2))"

subsection \<open>One run of \<open>readBlocksLoop\<close>\<close>

text \<open>
  \<open>fetchedBlocks\<close> is a \<open>Map\<close> from block number to block; a list of pairs with
  distinct keys, \<open>set\<close> and \<open>delete\<close> being \<open>AList.update\<close> and \<open>AList.delete\<close>.
  The blocks of a batch are fetched concurrently; each stores its own key, so which
  entries the buffer holds after \<open>Promise.all\<close> does not depend on the order in
  which the fetches finish (the model inserts them in request order).
\<close>

type_synonym buffer = "(int \<times> block) list"

definition fetchBatch :: "env \<Rightarrow> buffer \<Rightarrow> int list \<Rightarrow> buffer" where
  "fetchBatch e buf blockNumbers =
     fold (\<lambda>n b. case fst (tryGetBlock (getBlock_resp e n) maxAttempts) of
                    Some blk \<Rightarrow> AList.update n blk b
                  | None \<Rightarrow> b)
          blockNumbers buf"

text \<open>
  The inner \<open>while (fetchedBlocks.has(this.expectedBlockNumber))\<close>. An exception of
  \<open>saveLastProcessedBlock\<close> leaves the loop; it is returned with the state reached.
\<close>

function drain :: "env \<Rightarrow> buffer \<Rightarrow> reader \<Rightarrow> error option \<times> buffer \<times> reader" where
  "drain e buf s =
     (case map_of buf (expectedBlockNumber s) of
        None \<Rightarrow> (None, buf, s)
      | Some blk \<Rightarrow>
          (let buf' = AList.delete (expectedBlockNumber s) buf
           in case processBlock e s blk of
                (data, s1) \<Rightarrow>
                  (case saveLastProcessedBlock e s1 (expectedBlockNumber s1) of
                     Inl err \<Rightarrow> (Some err, buf', s1)
                   | Inr s2 \<Rightarrow>
                       drain e buf'
                         ((logAction (NewBlock data) s2)
                            \<lparr>expectedBlockNumber := expectedBlockNumber s2 + 1\<rparr>))))"
  by pat_completeness auto
termination
proof (relation "measure (\<lambda>(e, buf, s). length buf)", goal_cases)
  case 1
  show ?case by simp
next
  case (2 e buf s blk)
  from 2(1) have mem: "(expectedBlockNumber s, blk) \<in> set buf"
    by (rule map_of_SomeD)
  have "length (AList.delete (expectedBlockNumber s) buf) < length buf"
    unfolding AList.delete_eq
    by (rule length_filter_less[where x = "(expectedBlockNumber s, blk)"]) (use mem in auto)
  with 2 show ?case by simp
qed

text \<open>
  The outer \<open>while (nextBlock <= head)\<close>: a batch of at most \<open>maxParallelBlocks\<close>
  fetches, then the drain. The last component collects the buffer as it stands each time
  a batch has settled.
\<close>

function fetchLoop ::
  "env \<Rightarrow> int \<Rightarrow> int \<Rightarrow> buffer \<Rightarrow> reader \<Rightarrow> buffer list
     \<Rightarrow> error option \<times> buffer \<times> reader \<times> buffer list" where
  "fetchLoop e head nextBlock buf s seen =
     (if nextBlock \<le> head then
        (let lastOfBatch = min head (nextBlock + maxParallelBlocks - 1);
             buf1 = fetchBatch e buf [nextBlock..lastOfBatch]
         in case drain e buf1 s of
              (Some err, buf2, s') \<Rightarrow> (Some err, buf2, s', seen @ [buf1])
            | (None, buf2, s') \<Rightarrow> fetchLoop e head (lastOfBatch + 1) buf2 s' (seen @ [buf1]))
      else (None, buf, s, seen))"
  by pat_completeness auto
termination
  by (relation "measure (\<lambda>(e, head, nextBlock, buf, s, seen). nat (head + 1 - nextBlock))")
     (auto simp: maxParallelBlocks_def)

text \<open>
  One run of \<open>readBlocksLoop\<close> up to the rescheduling timer, with the buffer at the end
  of the run and the buffers seen after each batch.
\<close>

definition readBlocksRun :: "env \<Rightarrow> reader \<Rightarrow> reader \<times> buffer \<times> buffer list" where
  "readBlocksRun e s =
     (case blockNumber_resp e of
        Inl err \<Rightarrow> (logAction (ErrorEvent err) s, [], [])
      | Inr h \<Rightarrow>
          (let head = (if h < expectedBlockNumber s then expectedBlockNumber s else h)
           in case fetchLoop e head (expectedBlockNumber s) [] s [] of
                (Some err, buf, s', seen) \<Rightarrow> (logAction (ErrorEvent err) s', buf, seen)
              | (None, buf, s', seen) \<Rightarrow> (s', buf, seen)))"

definition readBlocksLoop :: "env \<Rightarrow> reader \<Rightarrow> reader" where
  "readBlocksLoop e s = fst (readBlocksRun e s)"

text \<open>The runs that the one-second timer chains, one environment per run.\<close>

fun readBlocksLoops :: "env list \<Rightarrow> reader \<Rightarrow> reader" where
  "readBlocksLoops [] s = s"
| "readBlocksLoops (e # es) s = readBlocksLoops es (readBlocksLoop e s)"

subsection \<open>Start-up\<close>

definition loadLastProcessedBlock :: "env \<Rightarrow> reader \<Rightarrow> int \<times> reader" where
  "loadLastProcessedBlock e s =
     (case lastBlockFile s of
        Content parsed \<Rightarrow>
          (let lastProcessedBlock = (case parsed of Some n \<Rightarrow> n | None \<Rightarrow> 0)
           in case blockNumber_resp e of
                Inl err \<Rightarrow> (lastProcessedBlock, logAction (ErrorEvent err) s)
              | Inr currentBlock \<Rightarrow>
                  if currentBlock - lastProcessedBlock > rereadBlocks \<or> lastProcessedBlock = 0
                  then (let newStartBlock = currentBlock - rereadBlocks
                        in case saveLastProcessedBlock e s newStartBlock of
                             Inl err \<Rightarrow> (lastProcessedBlock, logAction (ErrorEvent err) s)
                           | Inr s' \<Rightarrow> (newStartBlock, s'))
                  else (lastProcessedBlock, s))
      | Missing \<Rightarrow>
          (case blockNumber_resp e of
             Inl err \<Rightarrow> (0, logAction (ErrorEvent err) s)
           | Inr currentBlock \<Rightarrow>
               (case saveLastProcessedBlock e s currentBlock of
                  Inl err \<Rightarrow> (0, logAction (ErrorEvent err) s)
                | Inr s' \<Rightarrow> (currentBlock, s'))))"

text \<open>
  \<open>start\<close>: the cursor is the loaded checkpoint plus one, then the loop runs. The
  height is asked for once by the loader and again by the loop.
\<close>

definition startCursor :: "env \<Rightarrow> reader \<Rightarrow> reader" where
  "startCursor e s =
     (let (lastProcessed, s') = loadLastProcessedBlock e s
      in s'\<lparr>expectedBlockNumber := lastProcessed + 1\<rparr>)"

definition start :: "env \<Rightarrow> env list \<Rightarrow> reader \<Rightarrow> reader" where
  "start e es s = readBlocksLoops es (startCursor e s)"

subsection \<open>Properties of a trace\<close>

text \<open>
  Every announced block \<open>c\<close> finds the checkpoint file holding \<open>c\<close> at the moment it is
  announced; the entry just before it is the write of \<open>c\<close> to the file, made with the
  cursor at \<open>c\<close>; and the cursor is one further at whatever comes next (the next entry of
  the trace, or the present state, whose file still holds \<open>c\<close>, when the announcement is
  the last entry).
\<close>

definition checkpointedAnnouncements :: "entry list \<Rightarrow> int \<Rightarrow> file_content \<Rightarrow> bool" where
  "checkpointedAnnouncements tr cursor file =
     (\<forall>i < length tr. \<forall>c f d. tr ! i = (c, f, NewBlock d) \<longrightarrow>
          f = Content (Some c)
        \<and> 0 < i \<and> tr ! (i - 1) = (c, Content (Some c), Persisted c)
        \<and> (if i + 1 < length tr then fst (tr ! (i + 1)) = c + 1
            else cursor = c + 1 \<and> file = Content (Some c)))"

text \<open>The provider answers a request for block \<open>n\<close> with a block numbered \<open>n\<close>.\<close>

definition answersAsked :: "env \<Rightarrow> bool" where
  "answersAsked e = (\<forall>n k b. getBlock_resp e n k = Returns (Some b) \<longrightarrow> blk_number b = n)"

text \<open>Every announced block carries the number the cursor had when it was announced.\<close>

definition announcedByNumber :: "entry list \<Rightarrow> bool" where
  "announcedByNumber tr = (\<forall>c f d. (c, f, NewBlock d) \<in> set tr \<longrightarrow> bd_number d = c)"

text \<open>
  The new-block announcements of a trace, in the order they were made: the value of the
  cursor at each, and the number of the block each one carried.
\<close>

fun announcedNumber :: "action \<Rightarrow> int option" where
  "announcedNumber (NewBlock d) = Some (bd_number d)"
| "announcedNumber a = None"

definition announcedAt :: "entry list \<Rightarrow> int list" where
  "announcedAt tr = map fst (filter (\<lambda>x. announcedNumber (snd (snd x)) \<noteq> None) tr)"

definition announcedNumbers :: "entry list \<Rightarrow> int list" where
  "announcedNumbers tr = List.map_filter (\<lambda>x. announcedNumber (snd (snd x))) tr"

text \<open>Every buffered block is stored under its own number.\<close>

definition bufferByNumber :: "buffer \<Rightarrow> bool" where
  "bufferByNumber buf = (\<forall>k b. map_of buf k = Some b \<longrightarrow> blk_number b = k)"

text \<open>The buffer's keys are distinct and lie between two block numbers.\<close>

definition bufferWithin :: "int \<Rightarrow> int \<Rightarrow> buffer \<Rightarrow> bool" where
  "bufferWithin lo hi buf =
     (distinct (map fst buf) \<and> (\<forall>k \<in> fst ` set buf. lo \<le> k \<and> k \<le> hi))"

section \<open>Example inputs\<close>

text \<open>A provider as the constructor builds it from default options.\<close>

definition defaultProvider :: provider where
  "defaultProvider = \<lparr> lastHead = 0, headTimeoutMs = 500, blockTimeoutMs = 3000, consensusWindow = 5 \<rparr>"

text \<open>Five endpoints answering a height query in time, one far ahead and one behind.\<close>

definition exampleHeights :: "int rpc list" where
  "exampleHeights =
     [Resolves 40 811995, Resolves 35 812000, Resolves 20 812001, Resolves 120 812002,
      Resolves 15 812050]"

text \<open>Four endpoints answering a log query: one fails, two return two logs each.\<close>

definition exampleLogCalls :: "string list rpc list" where
  "exampleLogCalls =
     [Rejects 5, Resolves 30 [''a'', ''b''], Resolves 10 [''c''], Resolves 8999 [''d'', ''e'']]"

text \<open>A block with a hash and no transactions, as an endpoint returns it for a number.\<close>

definition exampleBlock :: "int \<Rightarrow> block" where
  "exampleBlock n = \<lparr> blk_number = n, blk_hash = Some ''0xab'', blk_timestamp = 0,
                      blk_transactions = TxHashes [] \<rparr>"

text \<open>The world at height \<open>h\<close> where every request succeeds at once.\<close>

definition healthyEnv :: "int \<Rightarrow> env" where
  "healthyEnv h = \<lparr> blockNumber_resp = Inr h,
                    getBlock_resp = (\<lambda>n k. Returns (Some (exampleBlock n))),
                    getTransaction_resp = (\<lambda>x. None),
                    writeFile_ok = (\<lambda>n. True) \<rparr>"

text \<open>The same world, except that every request for block 1 throws.\<close>

definition stuckEnv :: "int \<Rightarrow> env" where
  "stuckEnv h = \<lparr> blockNumber_resp = Inr h,
                  getBlock_resp = (\<lambda>n k. if n = 1 then Throws else Returns (Some (exampleBlock n))),
                  getTransaction_resp = (\<lambda>x. None),
                  writeFile_ok = (\<lambda>n. True) \<rparr>"

text \<open>A reader whose cursor stands at block \<open>c\<close>.\<close>

definition readerAt :: "int \<Rightarrow> reader" where
  "readerAt c = (newReader Missing)\<lparr>expectedBlockNumber := c\<rparr>"

section \<open>Consensus height: the code computes what the specification words\<close>

lemma last_sorted_Max:
  fixes xs :: "int list"
  assumes "sorted xs" and "xs \<noteq> []"
  shows "xs ! (length xs - 1) = Max (set xs)"
proof -
  have l: "xs ! (length xs - 1) = last xs"
    using assms(2) by (simp add: last_conv_nth)
  have "last xs \<in> set xs" using assms(2) by simp
  moreover have "\<forall>y \<in> set xs. y \<le> last xs"
  proof
    fix y assume "y \<in> set xs"
    then obtain i where i: "i < length xs" "xs ! i = y" by (auto simp: in_set_conv_nth)
    then have "xs ! i \<le> xs ! (length xs - 1)"
      using assms(1) by (intro sorted_nth_mono) auto
    with i l show "y \<le> last xs" by simp
  qed
  ultimately have "Max (set xs) = last xs"
    by (intro Max_eqI) auto
  with l show ?thesis by simp
qed

lemma consensusMedian_spec:
  assumes "obs \<noteq> []"
  shows "consensusMedian obs = spec_median obs"
proof -
  have pos: "0 < length obs" using assms by simp
  show ?thesis
  proof (cases "length obs mod 2 = 1")
    case True
    then have "length obs div 2 = (length obs - 1) div 2" by presburger
    with True show ?thesis by (simp add: consensusMedian_def spec_median_def)
  next
    case False
    then have "length obs div 2 - 1 = (length obs - 1) div 2" using pos by presburger
    with False show ?thesis by (simp add: consensusMedian_def spec_median_def)
  qed
qed

lemma consensusInWindow_set:
  assumes "obs \<noteq> []"
  shows "set (consensusInWindow w obs) = set (spec_kept w obs)"
  using assms by (auto simp: consensusInWindow_def spec_kept_def consensusMedian_spec Let_def)

lemma consensusInWindow_sorted: "sorted (consensusInWindow w obs)"
  by (simp add: consensusInWindow_def Let_def sorted_wrt_filter)

lemma pickConsensusHead_spec:
  assumes "obs \<noteq> []"
  shows "pickConsensusHead p obs = Some (spec_height (consensusWindow p) (lastHead p) obs)"
proof -
  let ?w = "consensusWindow p"
  let ?inW = "consensusInWindow ?w obs"
  have sel: "(if ?inW \<noteq> [] then ?inW else sort obs) ! (length (if ?inW \<noteq> [] then ?inW else sort obs) - 1)
             = spec_selected ?w obs"
  proof (cases "?inW = []")
    case True
    then have "set ?inW = {}" by simp
    then have "set (spec_kept ?w obs) = {}"
      using consensusInWindow_set[OF assms, of ?w] by metis
    then have k: "spec_kept ?w obs = []" by simp
    have "sort obs \<noteq> []"
      using assms by (metis length_sort length_0_conv)
    then have "sort obs ! (length (sort obs) - 1) = Max (set (sort obs))"
      by (intro last_sorted_Max) auto
    with True k show ?thesis by (simp add: spec_selected_def)
  next
    case False
    then have "set ?inW \<noteq> {}" by simp
    then have "set (spec_kept ?w obs) \<noteq> {}"
      using consensusInWindow_set[OF assms, of ?w] by metis
    then have k: "spec_kept ?w obs \<noteq> []" by auto
    have "?inW ! (length ?inW - 1) = Max (set ?inW)"
      using False consensusInWindow_sorted by (intro last_sorted_Max) auto
    with False k show ?thesis
      by (simp add: spec_selected_def consensusInWindow_set[OF assms])
  qed
  show ?thesis
    using assms sel by (simp add: pickConsensusHead_def Let_def spec_height_def max_def)
qed
lemma getBlockNumber_spec:
  assumes "headObservations p calls \<noteq> []"
  shows "getBlockNumber p calls =
           Inr (spec_height (consensusWindow p) (lastHead p) (headObservations p calls),
                p\<lparr>lastHead := spec_height (consensusWindow p) (lastHead p) (headObservations p calls)\<rparr>)"
  using pickConsensusHead_spec[OF assms, of p]
  by (simp add: getBlockNumber_def Let_def spec_height_def max_def)

text \<open>
  C1. For every fan-out of height queries with at least one answer in time,
  \<open>getBlockNumber\<close> returns the height the specification describes: the observations are
  sorted, the median is the middle element (the lower central one for an even count),
  the observations within the window around the median are kept, the maximum of the kept
  ones is selected (of all observations if none is kept), and the larger of that and the
  previous ratchet value is returned and becomes the new ratchet value. For the
  observations 811995, 812000, 812001, 812002, 812050 and window 5 the code keeps
  812000, 812001, 812002 and returns 812002 from a ratchet value of 0, and 812005 from
  a ratchet value of 812005.
\<close>

theorem getBlockNumber_consensus:
  "(headObservations p calls \<noteq> [] \<longrightarrow>
      getBlockNumber p calls =
        Inr (spec_height (consensusWindow p) (lastHead p) (headObservations p calls),
             p\<lparr>lastHead := spec_height (consensusWindow p) (lastHead p) (headObservations p calls)\<rparr>))
   \<and> headObservations defaultProvider exampleHeights = [811995, 812000, 812001, 812002, 812050]
   \<and> consensusMedian [811995, 812000, 812001, 812002, 812050] = 812001
   \<and> consensusInWindow 5 [811995, 812000, 812001, 812002, 812050] = [812000, 812001, 812002]
   \<and> getBlockNumber defaultProvider exampleHeights
        = Inr (812002, defaultProvider\<lparr>lastHead := 812002\<rparr>)
   \<and> getBlockNumber (defaultProvider\<lparr>lastHead := 812005\<rparr>) exampleHeights
        = Inr (812005, defaultProvider\<lparr>lastHead := 812005\<rparr>)"
proof -
  have obs: "headObservations defaultProvider exampleHeights = [811995, 812000, 812001, 812002, 812050]"
    by (simp add: headObservations_def defaultProvider_def exampleHeights_def List.map_filter_simps)
  have obs': "headObservations (defaultProvider\<lparr>lastHead := 812005\<rparr>) exampleHeights
                = [811995, 812000, 812001, 812002, 812050]"
    by (simp add: headObservations_def defaultProvider_def exampleHeights_def List.map_filter_simps)
  have med: "consensusMedian [811995, 812000, 812001, 812002, 812050] = 812001"
    by (simp add: consensusMedian_def)
  have win: "consensusInWindow 5 [811995, 812000, 812001, 812002, 812050] = [812000, 812001, 812002]"
    by (simp add: consensusInWindow_def med)
  have pick0: "pickConsensusHead defaultProvider [811995, 812000, 812001, 812002, 812050] = Some 812002"
    by (simp add: pickConsensusHead_def win defaultProvider_def)
  have pick5: "pickConsensusHead (defaultProvider\<lparr>lastHead := 812005\<rparr>)
                 [811995, 812000, 812001, 812002, 812050] = Some 812005"
    by (simp add: pickConsensusHead_def win defaultProvider_def)
  have r0: "getBlockNumber defaultProvider exampleHeights
              = Inr (812002, defaultProvider\<lparr>lastHead := 812002\<rparr>)"
    by (simp add: getBlockNumber_def obs pick0) (simp add: defaultProvider_def)
  have r5: "getBlockNumber (defaultProvider\<lparr>lastHead := 812005\<rparr>) exampleHeights
              = Inr (812005, defaultProvider\<lparr>lastHead := 812005\<rparr>)"
    by (simp add: getBlockNumber_def obs' pick5)
  show ?thesis
    using getBlockNumber_spec[of p calls] obs med win r0 r5 by blast
qed

theorem getBlockNumber_consensus_witness:
  "headObservations (defaultProvider\<lparr>lastHead := 812005\<rparr>) exampleHeights \<noteq> []
   \<and> spec_kept 5 [811995, 812000, 812001, 812002, 812050] = [812000, 812001, 812002]
   \<and> spec_selected 5 [811995, 812000, 812001, 812002, 812050] = 812002
   \<and> getBlockNumber (defaultProvider\<lparr>lastHead := 812005\<rparr>) exampleHeights
        = Inr (812005, defaultProvider\<lparr>lastHead := 812005\<rparr>)"
proof -
  have obs: "headObservations (defaultProvider\<lparr>lastHead := 812005\<rparr>) exampleHeights
               = [811995, 812000, 812001, 812002, 812050]"
    by (simp add: headObservations_def defaultProvider_def exampleHeights_def List.map_filter_simps)
  have med: "spec_median [811995, 812000, 812001, 812002, 812050] = 812001"
    by (simp add: spec_median_def)
  have kept: "spec_kept 5 [811995, 812000, 812001, 812002, 812050] = [812000, 812001, 812002]"
    by (simp add: spec_kept_def med)
  have sel: "spec_selected 5 [811995, 812000, 812001, 812002, 812050] = 812002"
    by (simp add: spec_selected_def kept)
  have ne: "headObservations (defaultProvider\<lparr>lastHead := 812005\<rparr>) exampleHeights \<noteq> []"
    by (simp add: obs)
  have h: "spec_height 5 812005 [811995, 812000, 812001, 812002, 812050] = 812005"
    by (simp add: spec_height_def sel)
  have w: "consensusWindow (defaultProvider\<lparr>lastHead := 812005\<rparr>) = 5"
    and l: "lastHead (defaultProvider\<lparr>lastHead := 812005\<rparr>) = 812005"
    by (simp_all add: defaultProvider_def)
  note inst = getBlockNumber_consensus[of "defaultProvider\<lparr>lastHead := 812005\<rparr>" exampleHeights,
                 THEN conjunct1, rule_format, OF ne]
  from inst
  have "getBlockNumber (defaultProvider\<lparr>lastHead := 812005\<rparr>) exampleHeights
          = Inr (812005, defaultProvider\<lparr>lastHead := 812005\<rparr>)"
    by (simp only: w l obs h) simp
  with ne kept sel show ?thesis by simp
qed

section \<open>The ratchet\<close>

lemma getBlockNumber_Inr:
  assumes "getBlockNumber p calls = Inr (h, p')"
  shows "lastHead p \<le> h \<and> lastHead p' = h \<and> headTimeoutMs p' = headTimeoutMs p"
  using assms
  by (auto simp: getBlockNumber_def pickConsensusHead_def Let_def
           split: option.splits if_splits)

lemma headObservations_timeout:
  "headTimeoutMs p' = headTimeoutMs p \<Longrightarrow> headObservations p' calls = headObservations p calls"
  by (simp add: headObservations_def)

lemma getBlockNumber_returns:
  assumes "headObservations p calls \<noteq> []"
  shows "\<exists>h p'. getBlockNumber p calls = Inr (h, p')"
  using getBlockNumber_spec[OF assms] by blast

lemma getBlockNumberCalls_ratchet:
  assumes "\<forall>calls \<in> set css. headObservations p calls \<noteq> []"
  shows "\<exists>hs. fst (getBlockNumberCalls p css) = map Inr hs
              \<and> sorted hs \<and> (\<forall>h \<in> set hs. lastHead p \<le> h)"
  using assms
proof (induction css arbitrary: p)
  case Nil
  show ?case by simp
next
  case (Cons calls rest)
  from Cons.prems obtain h p' where r: "getBlockNumber p calls = Inr (h, p')"
    using getBlockNumber_returns[of p calls] by auto
  note facts = getBlockNumber_Inr[OF r]
  have same: "headObservations p' c = headObservations p c" for c
    using facts by (intro headObservations_timeout) simp
  have "\<forall>c \<in> set rest. headObservations p' c \<noteq> []"
    using Cons.prems by (simp add: same)
  from Cons.IH[OF this] obtain hs where
    hs: "fst (getBlockNumberCalls p' rest) = map Inr hs" "sorted hs" "\<forall>x \<in> set hs. lastHead p' \<le> x"
    by blast
  have "fst (getBlockNumberCalls p (calls # rest)) = map Inr (h # hs)"
    using r hs(1) by (simp add: case_prod_unfold)
  moreover have "sorted (h # hs)"
    using hs facts by simp
  moreover have "\<forall>x \<in> set (h # hs). lastHead p \<le> x"
    using hs(3) facts by auto
  ultimately show ?case by blast
qed

text \<open>
  C2. On one provider instance, in every sequence of \<open>getBlockNumber\<close> calls in which
  each call has at least one height observation in time, every call returns a height,
  and each returned height is at least every height returned before it (and at least
  the ratchet value the instance started from), whatever the raw observations of the
  later calls are.
\<close>

theorem getBlockNumber_monotone:
  assumes "\<forall>calls \<in> set css. headObservations p calls \<noteq> []"
  shows "\<exists>hs. fst (getBlockNumberCalls p css) = map Inr hs
              \<and> (\<forall>i j. i < j \<and> j < length hs \<longrightarrow> hs ! i \<le> hs ! j)
              \<and> (\<forall>h \<in> set hs. lastHead p \<le> h)"
proof -
  from getBlockNumberCalls_ratchet[OF assms] obtain hs where
    hs: "fst (getBlockNumberCalls p css) = map Inr hs" "sorted hs" "\<forall>h \<in> set hs. lastHead p \<le> h"
    by blast
  from hs(2) have "\<forall>i j. i < j \<and> j < length hs \<longrightarrow> hs ! i \<le> hs ! j"
    by (simp add: sorted_iff_nth_mono)
  with hs(1,3) show ?thesis by blast
qed

theorem getBlockNumber_monotone_witness:
  "headObservations defaultProvider [Resolves 10 100, Rejects 5] \<noteq> []
   \<and> headObservations defaultProvider [Hangs, Resolves 10 90] \<noteq> []
   \<and> pickConsensusHead defaultProvider (headObservations defaultProvider [Hangs, Resolves 10 90]) = Some 90
   \<and> fst (getBlockNumberCalls defaultProvider [[Resolves 10 100, Rejects 5], [Hangs, Resolves 10 90]])
        = [Inr 100, Inr 100]"
proof -
  let ?q = "defaultProvider\<lparr>lastHead := 100\<rparr>"
  have o1: "headObservations defaultProvider [Resolves 10 100, Rejects 5] = [100]"
    by (simp add: headObservations_def defaultProvider_def List.map_filter_simps)
  have o2: "headObservations defaultProvider [Hangs, Resolves 10 90] = [90]"
    by (simp add: headObservations_def defaultProvider_def List.map_filter_simps)
  have o2': "headObservations ?q [Hangs, Resolves 10 90] = [90]"
    by (simp add: headObservations_def defaultProvider_def List.map_filter_simps)
  have hyp: "\<forall>calls \<in> set [[Resolves 10 100, Rejects 5], [Hangs, Resolves 10 90]].
               headObservations defaultProvider calls \<noteq> []"
    by (simp add: o1 o2)
  have pick: "pickConsensusHead defaultProvider [90] = Some 90"
    by (simp add: pickConsensusHead_def consensusInWindow_def consensusMedian_def defaultProvider_def)
  have pick1: "pickConsensusHead defaultProvider [100] = Some 100"
    by (simp add: pickConsensusHead_def consensusInWindow_def consensusMedian_def defaultProvider_def)
  have pick2: "pickConsensusHead ?q [90] = Some 100"
    by (simp add: pickConsensusHead_def consensusInWindow_def consensusMedian_def defaultProvider_def)
  have l0: "lastHead defaultProvider = 0" and l1: "lastHead ?q = 100"
    by (simp_all add: defaultProvider_def)
  have g1: "getBlockNumber defaultProvider [Resolves 10 100, Rejects 5] = Inr (100, ?q)"
    unfolding getBlockNumber_def o1 pick1 by (simp add: l0)
  have g2: "getBlockNumber ?q [Hangs, Resolves 10 90] = Inr (100, ?q)"
    unfolding getBlockNumber_def o2' pick2 by (simp add: l1)
  have run: "fst (getBlockNumberCalls defaultProvider [[Resolves 10 100, Rejects 5], [Hangs, Resolves 10 90]])
               = [Inr 100, Inr 100]"
    by (simp add: g1 g2)
  have p: "pickConsensusHead defaultProvider (headObservations defaultProvider [Hangs, Resolves 10 90]) = Some 90"
    by (simp only: o2 pick)
  have ne1: "headObservations defaultProvider [Resolves 10 100, Rejects 5] \<noteq> []"
    by (simp only: o1) simp
  have ne2: "headObservations defaultProvider [Hangs, Resolves 10 90] \<noteq> []"
    by (simp only: o2) simp
  from getBlockNumber_monotone[OF hyp] ne1 ne2 p run show ?thesis by blast
qed

section \<open>The parallel executor: which endpoint's result is returned\<close>

lemma endpointResult_accepted:
  "endpointResult p validate c = (case accepted p validate c of Some v \<Rightarrow> v | None \<Rightarrow> JNull)"
proof (cases "withTimeout c (blockTimeoutMs p)")
  case (Inl e)
  then show ?thesis
    by (simp add: endpointResult_def accepted_def spec_validated_def)
next
  case arrived: (Inr r)
  show ?thesis
  proof (cases validate)
    case None
    with arrived show ?thesis
      by (simp add: endpointResult_def accepted_def spec_validated_def)
  next
    case (Some f)
    show ?thesis
    proof (cases "f r")
      case (Inl e)
      with arrived Some show ?thesis
        by (simp add: endpointResult_def accepted_def spec_validated_def)
    next
      case (Inr b)
      with arrived Some show ?thesis
        by (cases b) (simp_all add: endpointResult_def accepted_def spec_validated_def)
    qed
  qed
qed

lemma accepted_not_null: "accepted p validate c = Some v \<Longrightarrow> v \<noteq> JNull"
  by (auto simp: accepted_def split: option.splits if_splits)

lemma find_results_accepted:
  "List.find (\<lambda>r. r \<noteq> JNull) (map (endpointResult p validate) calls) =
     (case List.map_filter (accepted p validate) calls of [] \<Rightarrow> None | v # vs \<Rightarrow> Some v)"
proof (induction calls)
  case Nil
  show ?case by (simp add: List.map_filter_simps)
next
  case (Cons c calls)
  show ?case
  proof (cases "accepted p validate c")
    case None
    with Cons show ?thesis
      by (simp add: endpointResult_accepted List.map_filter_simps)
  next
    case (Some v)
    with accepted_not_null[OF Some] show ?thesis
      by (simp add: endpointResult_accepted List.map_filter_simps)
  qed
qed

lemma executeParallel_accepted:
  "executeParallel p validate calls =
     (case List.map_filter (accepted p validate) calls of
        [] \<Rightarrow> Inl AllRpcNodesFailed
      | v # vs \<Rightarrow> if truthy v then Inr v else Inl AllRpcNodesFailed)"
  by (simp add: executeParallel_def find_results_accepted split: list.splits)

lemma map_filter_first:
  assumes "i < length xs" and "\<forall>j<i. f (xs ! j) = None" and "f (xs ! i) = Some v"
  shows "\<exists>rest. List.map_filter f xs = v # rest"
  using assms
proof (induction xs arbitrary: i)
  case Nil
  then show ?case by simp
next
  case (Cons x xs)
  show ?case
  proof (cases i)
    case 0
    with Cons.prems show ?thesis by (simp add: List.map_filter_simps)
  next
    case (Suc k)
    from Cons.prems Suc have x: "f x = None" by auto
    from Cons.prems Suc have "k < length xs" "\<forall>j<k. f (xs ! j) = None" "f (xs ! k) = Some v"
      by auto
    from Cons.IH[OF this] x show ?thesis by (simp add: List.map_filter_simps)
  qed
qed

lemma map_filter_head:
  "List.map_filter f xs = v # vs \<Longrightarrow> \<exists>c \<in> set xs. f c = Some v"
  by (induction xs) (auto simp: List.map_filter_simps split: option.splits)

lemma map_filter_none:
  "\<forall>c \<in> set xs. f c = None \<Longrightarrow> List.map_filter f xs = []"
  by (induction xs) (simp_all add: List.map_filter_simps)

text \<open>
  C3, as the code has it. Whatever the times at which the endpoints' calls settle: when
  endpoint \<open>i\<close> is the first in the configured order whose call fulfilled within the
  timeout with a result that is not \<open>null\<close> and passed validation, and that result is
  truthy, the executor returns endpoint \<open>i\<close>'s result; when no endpoint has such a
  result, the call fails with "All RPC nodes failed".
\<close>

theorem executeParallel_first_accepted:
  "(\<forall>i v. i < length calls
           \<and> (\<forall>j<i. accepted p validate (calls ! j) = None)
           \<and> accepted p validate (calls ! i) = Some v \<and> truthy v
         \<longrightarrow> executeParallel p validate calls = Inr v)
   \<and> ((\<forall>c \<in> set calls. accepted p validate c = None)
         \<longrightarrow> executeParallel p validate calls = Inl AllRpcNodesFailed)"
proof (intro conjI allI impI)
  fix i v
  assume h: "i < length calls \<and> (\<forall>j<i. accepted p validate (calls ! j) = None)
             \<and> accepted p validate (calls ! i) = Some v \<and> truthy v"
  then obtain rest where "List.map_filter (accepted p validate) calls = v # rest"
    using map_filter_first[of i calls "accepted p validate" v] by blast
  with h show "executeParallel p validate calls = Inr v"
    by (simp add: executeParallel_accepted)
next
  assume "\<forall>c \<in> set calls. accepted p validate c = None"
  then have "List.map_filter (accepted p validate) calls = []"
    by (rule map_filter_none)
  then show "executeParallel p validate calls = Inl AllRpcNodesFailed"
    by (simp add: executeParallel_accepted)
qed

lemma blockTimeout_default: "blockTimeoutMs defaultProvider = 3000"
  by (simp add: defaultProvider_def)

lemma accepted_default_Resolves:
  "accepted defaultProvider None (Resolves t v) =
     (if t < 3000 \<and> v \<noteq> JNull then Some v else None)"
  by (simp add: accepted_def spec_validated_def blockTimeout_default)

lemma accepted_default_Hangs: "accepted defaultProvider None Hangs = None"
  by (simp add: accepted_def spec_validated_def)

theorem executeParallel_first_accepted_witness:
  "accepted defaultProvider None (Hangs :: jsval rpc) = None
   \<and> accepted defaultProvider None (Resolves 2500 (JString ''0xaa'')) = Some (JString ''0xaa'')
   \<and> truthy (JString ''0xaa'')
   \<and> executeParallel defaultProvider None
        [Hangs, Resolves 2500 (JString ''0xaa''), Resolves 10 (JString ''0xbb'')]
        = Inr (JString ''0xaa'')
   \<and> executeParallel defaultProvider None [Hangs, Rejects 7, Resolves 10 JNull]
        = Inl AllRpcNodesFailed"
proof -
  let ?calls = "[Hangs, Resolves 2500 (JString ''0xaa''), Resolves 10 (JString ''0xbb'')]"
  have a0: "accepted defaultProvider None (Hangs :: jsval rpc) = None"
    by (rule accepted_default_Hangs)
  have a1: "accepted defaultProvider None (Resolves 2500 (JString ''0xaa'')) = Some (JString ''0xaa'')"
    by (simp add: accepted_default_Resolves)
  have t: "truthy (JString ''0xaa'')" by simp
  have first: "(1::nat) < length ?calls
               \<and> (\<forall>j<1. accepted defaultProvider None (?calls ! j) = None)
               \<and> accepted defaultProvider None (?calls ! 1) = Some (JString ''0xaa'')
               \<and> truthy (JString ''0xaa'')"
    using a0 a1 by simp
  have none: "\<forall>c \<in> set [Hangs, Rejects 7, Resolves 10 JNull]. accepted defaultProvider None c = None"
    by (simp add: accepted_def spec_validated_def blockTimeout_default)
  have r1: "executeParallel defaultProvider None ?calls = Inr (JString ''0xaa'')"
    using executeParallel_first_accepted[of ?calls defaultProvider None,
            THEN conjunct1, rule_format, of 1 "JString ''0xaa''"] first
    by blast
  have r2: "executeParallel defaultProvider None [Hangs, Rejects 7, Resolves 10 JNull]
              = Inl AllRpcNodesFailed"
    using executeParallel_first_accepted[of "[Hangs, Rejects 7, Resolves 10 JNull]" defaultProvider None,
            THEN conjunct2, rule_format] none
    by blast
  from a0 a1 t r1 r2 show ?thesis by blast
qed

text \<open>
  The claim as the specification words it fails: with no validator, an endpoint that
  fulfils with \<open>null\<close> is a validated success in the specification's sense and is the
  first in the configured order, yet the executor returns the second endpoint's result.
\<close>

theorem executeParallel_null_counterexample:
  "spec_fanOut defaultProvider None [Resolves 10 JNull, Resolves 20 (JString ''0x1'')] = Inr JNull
   \<and> executeParallel defaultProvider None [Resolves 10 JNull, Resolves 20 (JString ''0x1'')]
        = Inr (JString ''0x1'')
   \<and> executeParallel defaultProvider None [Resolves 10 JNull, Resolves 20 (JString ''0x1'')]
        \<noteq> spec_fanOut defaultProvider None [Resolves 10 JNull, Resolves 20 (JString ''0x1'')]"
proof -
  have s: "spec_fanOut defaultProvider None [Resolves 10 JNull, Resolves 20 (JString ''0x1'')] = Inr JNull"
    by (simp add: spec_fanOut_def spec_validated_def blockTimeout_default List.map_filter_simps)
  have e: "executeParallel defaultProvider None [Resolves 10 JNull, Resolves 20 (JString ''0x1'')]
             = Inr (JString ''0x1'')"
    by (simp add: executeParallel_accepted accepted_default_Resolves List.map_filter_simps)
  from s e show ?thesis by simp
qed

text \<open>
  The test \<open>if (!ok)\<close> also rejects a found result that is falsy. A balance of zero
  reported by every endpoint passes the endpoint stage and is found, and the call then
  throws "All RPC nodes failed".
\<close>

lemma getBalance_zero_throws:
  "getBalance defaultProvider [Resolves 10 (JBigInt 0), Resolves 20 (JBigInt 0)]
     = Inl AllRpcNodesFailed"
  by (simp add: getBalance_def executeParallel_accepted accepted_default_Resolves
                List.map_filter_simps)

section \<open>A fulfilment with null counts as a failure\<close>

lemma accepted_nullAsFailure:
  "accepted p validate (nullAsFailure c) = accepted p validate c"
proof (cases c)
  case (Resolves t v)
  then show ?thesis
    by (cases "v = JNull") (simp_all add: accepted_def spec_validated_def split: option.splits)
qed simp_all

lemma endpointResult_nullAsFailure:
  "endpointResult p validate (nullAsFailure c) = endpointResult p validate c"
  by (simp add: endpointResult_accepted accepted_nullAsFailure)

lemma executeParallel_nullAsFailure:
  "executeParallel p validate (map nullAsFailure calls) = executeParallel p validate calls"
  by (simp add: executeParallel_def comp_def endpointResult_nullAsFailure)

lemma hasHash_True:
  assumes "hasHash v = Inr True"
  shows "\<exists>fs h. v = JObject fs \<and> map_of fs ''hash'' = Some h \<and> truthy h"
  using assms by (cases v) (auto simp: hasHash_def split: option.splits)

lemma hasStatus_True:
  assumes "hasStatus v = Inr True"
  shows "\<exists>fs. v = JObject fs \<and> ''status'' \<in> set (map fst fs)"
  using assms by (cases v) (auto simp: hasStatus_def split: if_splits)

lemma executeParallel_result:
  "executeParallel p validate calls = Inl AllRpcNodesFailed
   \<or> (\<exists>v c. executeParallel p validate calls = Inr v \<and> c \<in> set calls
              \<and> accepted p validate c = Some v)"
proof (cases "List.map_filter (accepted p validate) calls")
  case Nil
  then show ?thesis by (simp add: executeParallel_accepted)
next
  case (Cons v vs)
  then obtain c where "c \<in> set calls" "accepted p validate c = Some v"
    using map_filter_head[of "accepted p validate" calls v vs] by blast
  with Cons show ?thesis
    by (cases "truthy v") (auto simp: executeParallel_accepted)
qed

lemma accepted_validator:
  assumes "accepted p (Some f) c = Some v"
  shows "f v = Inr True"
  using assms
  by (auto simp: accepted_def spec_validated_def split: option.splits sum.splits if_splits)

lemma accepted_all_null:
  assumes "\<forall>c \<in> set calls. \<exists>t. c = Resolves t JNull"
  shows "List.map_filter (accepted p validate) calls = []"
proof (rule map_filter_none, rule ballI)
  fix c assume "c \<in> set calls"
  with assms obtain t where "c = Resolves t JNull" by blast
  then show "accepted p validate c = None"
    by (simp add: accepted_def spec_validated_def split: option.splits sum.splits)
qed

text \<open>
  C10. In the executor a call that fulfils with \<open>null\<close> has the same effect as one that
  rejects. \<open>getBlock\<close>, \<open>getTransaction\<close> and \<open>getTransactionReceipt\<close> therefore either throw
  "All RPC nodes failed" or return an object accepted by their validator (with a truthy
  \<open>hash\<close>, with a \<open>status\<close> property), never \<open>null\<close>; and they throw when
  every endpoint fulfils with \<open>null\<close>.
\<close>

theorem null_result_is_failure:
  "executeParallel p validate (map nullAsFailure calls) = executeParallel p validate calls
   \<and> (getBlock p calls = Inl AllRpcNodesFailed
        \<or> (\<exists>fs h. getBlock p calls = Inr (JObject fs) \<and> map_of fs ''hash'' = Some h \<and> truthy h))
   \<and> (getTransaction p calls = Inl AllRpcNodesFailed
        \<or> (\<exists>fs h. getTransaction p calls = Inr (JObject fs) \<and> map_of fs ''hash'' = Some h \<and> truthy h))
   \<and> (getTransactionReceipt p calls = Inl AllRpcNodesFailed
        \<or> (\<exists>fs. getTransactionReceipt p calls = Inr (JObject fs) \<and> ''status'' \<in> set (map fst fs)))
   \<and> getBlock p calls \<noteq> Inr JNull
   \<and> getTransaction p calls \<noteq> Inr JNull
   \<and> getTransactionReceipt p calls \<noteq> Inr JNull
   \<and> ((\<forall>c \<in> set calls. \<exists>t. c = Resolves t JNull) \<longrightarrow>
          getBlock p calls = Inl AllRpcNodesFailed
        \<and> getTransaction p calls = Inl AllRpcNodesFailed
        \<and> getTransactionReceipt p calls = Inl AllRpcNodesFailed)"
proof -
  have hash: "executeParallel p (Some hasHash) calls = Inl AllRpcNodesFailed
        \<or> (\<exists>fs h. executeParallel p (Some hasHash) calls = Inr (JObject fs)
                   \<and> map_of fs ''hash'' = Some h \<and> truthy h)"
    using executeParallel_result[of p "Some hasHash" calls]
    by (metis accepted_validator hasHash_True)
  have status: "executeParallel p (Some hasStatus) calls = Inl AllRpcNodesFailed
        \<or> (\<exists>fs. executeParallel p (Some hasStatus) calls = Inr (JObject fs)
                 \<and> ''status'' \<in> set (map fst fs))"
    using executeParallel_result[of p "Some hasStatus" calls]
    by (metis accepted_validator hasStatus_True)
  have hash_nn: "executeParallel p (Some hasHash) calls \<noteq> Inr JNull"
    using hash by auto
  have status_nn: "executeParallel p (Some hasStatus) calls \<noteq> Inr JNull"
    using status by auto
  have allnull: "(\<forall>c \<in> set calls. \<exists>t. c = Resolves t JNull) \<longrightarrow>
                   executeParallel p v calls = Inl AllRpcNodesFailed" for v
    by (simp add: executeParallel_accepted accepted_all_null)
  show ?thesis
    unfolding getBlock_def getTransaction_def getTransactionReceipt_def
    using executeParallel_nullAsFailure[of p validate calls] hash status hash_nn status_nn
          allnull[of "Some hasHash"] allnull[of "Some hasStatus"]
    by blast
qed

theorem null_result_is_failure_witness:
  "getBlock defaultProvider [Resolves 10 JNull, Resolves 400 JNull] = Inl AllRpcNodesFailed
   \<and> getTransaction defaultProvider [Resolves 10 JNull, Resolves 400 JNull] = Inl AllRpcNodesFailed
   \<and> getTransactionReceipt defaultProvider [Resolves 10 JNull, Resolves 400 JNull]
        = Inl AllRpcNodesFailed
   \<and> getBlock defaultProvider
        [Resolves 10 JNull, Resolves 400 (JObject [(''hash'', JString ''0xab'')])]
        = Inr (JObject [(''hash'', JString ''0xab'')])"
proof -
  have h: "\<forall>c \<in> set [Resolves 10 JNull, Resolves 400 JNull]. \<exists>t. c = Resolves t JNull"
    by simp
  note n = null_result_is_failure[of defaultProvider None "[Resolves 10 JNull, Resolves 400 JNull]"]
  from n h have r: "getBlock defaultProvider [Resolves 10 JNull, Resolves 400 JNull] = Inl AllRpcNodesFailed
      \<and> getTransaction defaultProvider [Resolves 10 JNull, Resolves 400 JNull] = Inl AllRpcNodesFailed
      \<and> getTransactionReceipt defaultProvider [Resolves 10 JNull, Resolves 400 JNull]
           = Inl AllRpcNodesFailed"
    by blast
  have a1: "accepted defaultProvider (Some hasHash) (Resolves 10 JNull) = None"
    by (simp add: accepted_def spec_validated_def blockTimeout_default hasHash_def)
  have a2: "accepted defaultProvider (Some hasHash)
              (Resolves 400 (JObject [(''hash'', JString ''0xab'')]))
            = Some (JObject [(''hash'', JString ''0xab'')])"
    by (simp add: accepted_def spec_validated_def blockTimeout_default hasHash_def)
  have g: "getBlock defaultProvider
        [Resolves 10 JNull, Resolves 400 (JObject [(''hash'', JString ''0xab'')])]
        = Inr (JObject [(''hash'', JString ''0xab'')])"
    by (simp add: getBlock_def executeParallel_accepted List.map_filter_simps a1 a2)
  from r g show ?thesis by simp
qed

section \<open>Log queries: the longest list\<close>

lemma foldl_longest:
  fixes r :: "'a list"
  shows "\<exists>i < length (r # rs).
           foldl (\<lambda>a b. if length b > length a then b else a) r rs = (r # rs) ! i
           \<and> (\<forall>j < length (r # rs). length ((r # rs) ! j) \<le> length ((r # rs) ! i))
           \<and> (\<forall>j < i. length ((r # rs) ! j) < length ((r # rs) ! i))"
proof (induction rs rule: rev_induct)
  case Nil
  show ?case by simp
next
  case (snoc x rs)
  let ?step = "\<lambda>a b :: 'a list. if length b > length a then b else a"
  from snoc obtain i where i: "i < length (r # rs)"
      and pick: "foldl ?step r rs = (r # rs) ! i"
      and all: "\<forall>j < length (r # rs). length ((r # rs) ! j) \<le> length ((r # rs) ! i)"
      and before: "\<forall>j < i. length ((r # rs) ! j) < length ((r # rs) ! i)"
    by blast
  have old: "(r # rs @ [x]) ! j = (r # rs) ! j" if "j < length (r # rs)" for j
    using that nth_append[of "r # rs" "[x]" j] by simp
  have new: "(r # rs @ [x]) ! length (r # rs) = x"
    using nth_append_length[of "r # rs" x "[]"] by simp
  show ?case
  proof (cases "length x > length ((r # rs) ! i)")
    case True
    let ?k = "length (r # rs)"
    have "?k < length (r # rs @ [x])" by simp
    moreover have "foldl ?step r (rs @ [x]) = (r # rs @ [x]) ! ?k"
      using True pick new by simp
    moreover have "\<forall>j < length (r # rs @ [x]). length ((r # rs @ [x]) ! j) \<le> length ((r # rs @ [x]) ! ?k)"
    proof (intro allI impI)
      fix j assume "j < length (r # rs @ [x])"
      then consider "j < length (r # rs)" | "j = length (r # rs)" by fastforce
      then show "length ((r # rs @ [x]) ! j) \<le> length ((r # rs @ [x]) ! ?k)"
      proof cases
        case 1
        with all True show ?thesis by (simp only: old new) (metis le_less_trans less_imp_le)
      next
        case 2
        then show ?thesis by simp
      qed
    qed
    moreover have "\<forall>j < ?k. length ((r # rs @ [x]) ! j) < length ((r # rs @ [x]) ! ?k)"
    proof (intro allI impI)
      fix j assume j: "j < ?k"
      with all True show "length ((r # rs @ [x]) ! j) < length ((r # rs @ [x]) ! ?k)"
        by (simp only: old new) (metis le_less_trans)
    qed
    ultimately show ?thesis by (intro exI[of _ ?k]) simp
  next
    case False
    have "i < length (r # rs @ [x])" using i by simp
    moreover have "foldl ?step r (rs @ [x]) = (r # rs @ [x]) ! i"
      using False pick old[OF i] by simp
    moreover have "\<forall>j < length (r # rs @ [x]). length ((r # rs @ [x]) ! j) \<le> length ((r # rs @ [x]) ! i)"
    proof (intro allI impI)
      fix j assume "j < length (r # rs @ [x])"
      then consider "j < length (r # rs)" | "j = length (r # rs)" by fastforce
      then show "length ((r # rs @ [x]) ! j) \<le> length ((r # rs @ [x]) ! i)"
      proof cases
        case 1
        with all show ?thesis by (simp only: old old[OF i])
      next
        case 2
        with False show ?thesis unfolding 2 new old[OF i] by simp
      qed
    qed
    moreover have "\<forall>j < i. length ((r # rs @ [x]) ! j) < length ((r # rs @ [x]) ! i)"
    proof (intro allI impI)
      fix j assume j: "j < i"
      with i have "j < length (r # rs)" by simp
      with before j show "length ((r # rs @ [x]) ! j) < length ((r # rs @ [x]) ! i)"
        by (simp only: old old[OF i])
    qed
    ultimately show ?thesis by (intro exI[of _ i]) simp
  qed
qed

lemma getLogs_index:
  assumes ne: "calls \<noteq> []"
  shows "\<exists>i < length calls.
          getLogs p calls = Inr (logsOf p (calls ! i))
        \<and> (\<forall>j < length calls. length (logsOf p (calls ! j)) \<le> length (logsOf p (calls ! i)))
        \<and> (\<forall>j < i. length (logsOf p (calls ! j)) < length (logsOf p (calls ! i)))"
proof -
  from ne obtain c cs where calls: "calls = c # cs" by (cases calls) auto
  let ?rs = "map (logsOf p) calls"
  have rs: "?rs = logsOf p c # map (logsOf p) cs" by (simp add: calls)
  from foldl_longest[of "logsOf p c" "map (logsOf p) cs"]
  obtain i where i: "i < length ?rs"
    and pick: "foldl (\<lambda>a b. if length b > length a then b else a) (logsOf p c) (map (logsOf p) cs) = ?rs ! i"
    and all: "\<forall>j < length ?rs. length (?rs ! j) \<le> length (?rs ! i)"
    and before: "\<forall>j < i. length (?rs ! j) < length (?rs ! i)"
    unfolding rs by blast
  have nth: "?rs ! j = logsOf p (calls ! j)" if "j < length calls" for j
    using that by (rule nth_map)
  have il: "i < length calls" using i by simp
  have "getLogs p calls = Inr (?rs ! i)"
    unfolding getLogs_def rs using pick rs by simp
  then have "getLogs p calls = Inr (logsOf p (calls ! i))"
    by (simp only: nth[OF il])
  moreover have "\<forall>j < length calls. length (logsOf p (calls ! j)) \<le> length (logsOf p (calls ! i))"
  proof (intro allI impI)
    fix j assume j: "j < length calls"
    with all have "length (?rs ! j) \<le> length (?rs ! i)" by simp
    then show "length (logsOf p (calls ! j)) \<le> length (logsOf p (calls ! i))"
      by (simp only: nth[OF j] nth[OF il])
  qed
  moreover have "\<forall>j < i. length (logsOf p (calls ! j)) < length (logsOf p (calls ! i))"
  proof (intro allI impI)
    fix j assume j: "j < i"
    with il have jl: "j < length calls" by simp
    from before j have "length (?rs ! j) < length (?rs ! i)" by simp
    then show "length (logsOf p (calls ! j)) < length (logsOf p (calls ! i))"
      by (simp only: nth[OF jl] nth[OF il])
  qed
  ultimately show ?thesis using il by blast
qed

lemma logsOf_callFails:
  "callFails c (blockTimeoutMs p * 3) \<Longrightarrow> logsOf p c = []"
  by (simp add: callFails_def logsOf_def split: sum.splits)

text \<open>
  C7. For every log query on at least one endpoint, the call returns a list \<open>r\<close> (it does
  not throw) such that: every endpoint that answered within the timeout (three block
  timeouts) answered with a list no longer than \<open>r\<close>; \<open>r\<close> is the list of one endpoint
  \<open>i\<close>, that is, the list it answered with in time, or the empty list if its call failed
  or timed out; and every endpoint before \<open>i\<close> in the configured order has a strictly
  shorter list: what it answered in time is strictly shorter than \<open>r\<close>, and if it failed
  or timed out then \<open>r\<close> is not empty.
\<close>

theorem getLogs_longest:
  "calls \<noteq> [] \<longrightarrow>
     (\<exists>r. getLogs p calls = Inr r
        \<and> (\<forall>j < length calls. \<forall>t logs.
              calls ! j = Resolves t logs \<and> t < blockTimeoutMs p * 3 \<longrightarrow> length logs \<le> length r)
        \<and> (\<exists>i < length calls.
              ((\<exists>t. calls ! i = Resolves t r \<and> t < blockTimeoutMs p * 3)
               \<or> (r = [] \<and> callFails (calls ! i) (blockTimeoutMs p * 3)))
            \<and> (\<forall>j < i. \<forall>t logs.
                  calls ! j = Resolves t logs \<and> t < blockTimeoutMs p * 3 \<longrightarrow> length logs < length r)
            \<and> (\<forall>j < i. callFails (calls ! j) (blockTimeoutMs p * 3) \<longrightarrow> r \<noteq> [])))"
proof
  assume ne: "calls \<noteq> []"
  from getLogs_index[OF ne, of p]
  obtain i where i: "i < length calls"
    and r: "getLogs p calls = Inr (logsOf p (calls ! i))"
    and all: "\<forall>j < length calls. length (logsOf p (calls ! j)) \<le> length (logsOf p (calls ! i))"
    and before: "\<forall>j < i. length (logsOf p (calls ! j)) < length (logsOf p (calls ! i))"
    by blast
  let ?r = "logsOf p (calls ! i)"
  have longest: "\<forall>j < length calls. \<forall>t logs.
      calls ! j = Resolves t logs \<and> t < blockTimeoutMs p * 3 \<longrightarrow> length logs \<le> length ?r"
  proof (intro allI impI)
    fix j t logs
    assume j: "j < length calls" and c: "calls ! j = Resolves t logs \<and> t < blockTimeoutMs p * 3"
    then have "logsOf p (calls ! j) = logs" by (simp add: logsOf_def)
    with all j show "length logs \<le> length ?r" by auto
  qed
  have one: "(\<exists>t. calls ! i = Resolves t ?r \<and> t < blockTimeoutMs p * 3)
             \<or> (?r = [] \<and> callFails (calls ! i) (blockTimeoutMs p * 3))"
    by (cases "calls ! i") (simp_all add: logsOf_def callFails_def)
  have shorter: "\<forall>j < i. \<forall>t logs.
      calls ! j = Resolves t logs \<and> t < blockTimeoutMs p * 3 \<longrightarrow> length logs < length ?r"
  proof (intro allI impI)
    fix j t logs
    assume j: "j < i" and c: "calls ! j = Resolves t logs \<and> t < blockTimeoutMs p * 3"
    then have "logsOf p (calls ! j) = logs" by (simp add: logsOf_def)
    with before j show "length logs < length ?r" by auto
  qed
  have failed: "\<forall>j < i. callFails (calls ! j) (blockTimeoutMs p * 3) \<longrightarrow> ?r \<noteq> []"
  proof (intro allI impI)
    fix j
    assume j: "j < i" and f: "callFails (calls ! j) (blockTimeoutMs p * 3)"
    from f have "logsOf p (calls ! j) = []" by (rule logsOf_callFails)
    with before j have "0 < length ?r" by auto
    then show "?r \<noteq> []" by simp
  qed
  from i one shorter failed
  have "\<exists>i < length calls.
              ((\<exists>t. calls ! i = Resolves t ?r \<and> t < blockTimeoutMs p * 3)
               \<or> (?r = [] \<and> callFails (calls ! i) (blockTimeoutMs p * 3)))
            \<and> (\<forall>j < i. \<forall>t logs.
                  calls ! j = Resolves t logs \<and> t < blockTimeoutMs p * 3 \<longrightarrow> length logs < length ?r)
            \<and> (\<forall>j < i. callFails (calls ! j) (blockTimeoutMs p * 3) \<longrightarrow> ?r \<noteq> [])"
    by blast
  with r longest
  show "\<exists>r. getLogs p calls = Inr r
        \<and> (\<forall>j < length calls. \<forall>t logs.
              calls ! j = Resolves t logs \<and> t < blockTimeoutMs p * 3 \<longrightarrow> length logs \<le> length r)
        \<and> (\<exists>i < length calls.
              ((\<exists>t. calls ! i = Resolves t r \<and> t < blockTimeoutMs p * 3)
               \<or> (r = [] \<and> callFails (calls ! i) (blockTimeoutMs p * 3)))
            \<and> (\<forall>j < i. \<forall>t logs.
                  calls ! j = Resolves t logs \<and> t < blockTimeoutMs p * 3 \<longrightarrow> length logs < length r)
            \<and> (\<forall>j < i. callFails (calls ! j) (blockTimeoutMs p * 3) \<longrightarrow> r \<noteq> []))"
    by (intro exI[of _ ?r] conjI)
qed

theorem getLogs_longest_witness:
  "exampleLogCalls \<noteq> []
   \<and> exampleLogCalls ! 1 = Resolves 30 [''a'', ''b'']
   \<and> exampleLogCalls ! 3 = Resolves 8999 [''d'', ''e'']
   \<and> getLogs defaultProvider exampleLogCalls = Inr [''a'', ''b'']"
proof -
  have ne: "exampleLogCalls \<noteq> []" by (simp add: exampleLogCalls_def)
  have t: "blockTimeoutMs defaultProvider * 3 = 9000" by (simp add: defaultProvider_def)
  have c0: "exampleLogCalls ! 0 = Rejects 5"
    and c1: "exampleLogCalls ! 1 = Resolves 30 [''a'', ''b'']"
    and c2: "exampleLogCalls ! 2 = Resolves 10 [''c'']"
    and c3: "exampleLogCalls ! 3 = Resolves 8999 [''d'', ''e'']"
    by (simp_all add: exampleLogCalls_def)
  have len: "length exampleLogCalls = 4" by (simp add: exampleLogCalls_def)
  from getLogs_longest[of exampleLogCalls defaultProvider, rule_format, OF ne]
  obtain r i where r: "getLogs defaultProvider exampleLogCalls = Inr r"
    and longest: "\<forall>j < 4. \<forall>t logs. exampleLogCalls ! j = Resolves t logs \<and> t < 9000
                    \<longrightarrow> length logs \<le> length r"
    and i: "i < 4"
    and one: "(\<exists>t. exampleLogCalls ! i = Resolves t r \<and> t < 9000)
              \<or> (r = [] \<and> callFails (exampleLogCalls ! i) 9000)"
    and shorter: "\<forall>j < i. \<forall>t logs. exampleLogCalls ! j = Resolves t logs \<and> t < 9000
                    \<longrightarrow> length logs < length r"
    unfolding len t by blast
  from longest[rule_format, of 1 30 "[''a'', ''b'']"] c1 have ge: "2 \<le> length r" by simp
  from i consider "i = 0" | "i = 1" | "i = 2" | "i = 3" by linarith
  then have "r = [''a'', ''b'']"
  proof cases
    case 1
    with one c0 have "r = []" by simp
    with ge show ?thesis by simp
  next
    case 2
    with one c1 ge show ?thesis by auto
  next
    case 3
    with one c2 ge show ?thesis by auto
  next
    case 4
    with shorter[rule_format, of 1 30 "[''a'', ''b'']"] c1
    have "length [''a'', ''b''] < length r" by simp
    moreover from 4 one c3 ge have "r = [''d'', ''e'']" by auto
    ultimately show ?thesis by simp
  qed
  with r ne c1 c3 show ?thesis by simp
qed

section \<open>When every endpoint fails\<close>

lemma accepted_callFails:
  "callFails c (blockTimeoutMs p) \<Longrightarrow> accepted p validate c = None"
  by (simp add: callFails_def accepted_def spec_validated_def split: sum.splits)

lemma executeParallel_all_fail:
  assumes "\<forall>c \<in> set calls. callFails c (blockTimeoutMs p)"
  shows "executeParallel p validate calls = Inl AllRpcNodesFailed"
proof -
  have "List.map_filter (accepted p validate) calls = []"
    using assms by (intro map_filter_none) (simp add: accepted_callFails)
  then show ?thesis by (simp add: executeParallel_accepted)
qed

lemma headObservations_all_fail:
  assumes "\<forall>c \<in> set calls. callFails c (headTimeoutMs p)"
  shows "headObservations p calls = []"
  unfolding headObservations_def
  using assms by (intro map_filter_none) (simp add: callFails_def split: sum.splits)

lemma getLogs_all_fail:
  assumes "calls \<noteq> []" and "\<forall>c \<in> set calls. callFails c (blockTimeoutMs p * 3)"
  shows "getLogs p calls = Inr []"
proof -
  from getLogs_index[OF assms(1), of p]
  obtain i where i: "i < length calls" and r: "getLogs p calls = Inr (logsOf p (calls ! i))"
    by blast
  from i assms(2) have "callFails (calls ! i) (blockTimeoutMs p * 3)" by simp
  then have "logsOf p (calls ! i) = []" by (rule logsOf_callFails)
  with r show ?thesis by simp
qed

text \<open>
  C8, as the code has it. When every endpoint's call fails (it rejects, or does not
  settle within the timeout), every query routed through the parallel executor throws
  "All RPC nodes failed" and \<open>getBlockNumber\<close> throws "All RPC nodes failed for
  getBlockNumber()". \<open>getLogs\<close> does not throw: it returns the empty list.
\<close>

theorem total_failure:
  "((\<forall>c \<in> set calls. callFails c (blockTimeoutMs p)) \<longrightarrow>
        getBlock p calls = Inl AllRpcNodesFailed
      \<and> call p calls = Inl AllRpcNodesFailed
      \<and> multicall p calls = Inl AllRpcNodesFailed
      \<and> getTransaction p calls = Inl AllRpcNodesFailed
      \<and> getTransactionReceipt p calls = Inl AllRpcNodesFailed
      \<and> waitForTransaction p calls = Inl AllRpcNodesFailed
      \<and> getBalance p calls = Inl AllRpcNodesFailed
      \<and> getFeeData p calls = Inl AllRpcNodesFailed
      \<and> send p calls = Inl AllRpcNodesFailed)
   \<and> ((\<forall>c \<in> set heightCalls. callFails c (headTimeoutMs p)) \<longrightarrow>
        getBlockNumber p heightCalls = Inl AllRpcNodesFailedForGetBlockNumber)
   \<and> (logCalls \<noteq> [] \<and> (\<forall>c \<in> set logCalls. callFails c (blockTimeoutMs p * 3)) \<longrightarrow>
        getLogs p logCalls = Inr [])"
proof (intro conjI impI)
  assume f: "\<forall>c \<in> set calls. callFails c (blockTimeoutMs p)"
  note e = executeParallel_all_fail[OF f]
  show "getBlock p calls = Inl AllRpcNodesFailed" by (simp add: getBlock_def e)
  show "call p calls = Inl AllRpcNodesFailed" by (simp add: call_def e)
  show "multicall p calls = Inl AllRpcNodesFailed" by (simp add: multicall_def e)
  show "getTransaction p calls = Inl AllRpcNodesFailed" by (simp add: getTransaction_def e)
  show "getTransactionReceipt p calls = Inl AllRpcNodesFailed"
    by (simp add: getTransactionReceipt_def e)
  show "waitForTransaction p calls = Inl AllRpcNodesFailed" by (simp add: waitForTransaction_def e)
  show "getBalance p calls = Inl AllRpcNodesFailed" by (simp add: getBalance_def e)
  show "getFeeData p calls = Inl AllRpcNodesFailed" by (simp add: getFeeData_def e)
  show "send p calls = Inl AllRpcNodesFailed" by (simp add: send_def e)
next
  assume "\<forall>c \<in> set heightCalls. callFails c (headTimeoutMs p)"
  then have "headObservations p heightCalls = []" by (rule headObservations_all_fail)
  then show "getBlockNumber p heightCalls = Inl AllRpcNodesFailedForGetBlockNumber"
    by (simp add: getBlockNumber_def pickConsensusHead_def)
next
  assume "logCalls \<noteq> [] \<and> (\<forall>c \<in> set logCalls. callFails c (blockTimeoutMs p * 3))"
  then show "getLogs p logCalls = Inr []"
    using getLogs_all_fail[of logCalls p] by blast
qed

theorem total_failure_witness:
  "getBlock defaultProvider [Rejects 5, Hangs, Resolves 3500 (JString ''late'')] = Inl AllRpcNodesFailed
   \<and> getBalance defaultProvider [Rejects 5, Hangs, Resolves 3500 (JString ''late'')] = Inl AllRpcNodesFailed
   \<and> send defaultProvider [Rejects 5, Hangs, Resolves 3500 (JString ''late'')] = Inl AllRpcNodesFailed
   \<and> getBlockNumber defaultProvider [Hangs, Resolves 600 812000, Rejects 3]
         = Inl AllRpcNodesFailedForGetBlockNumber
   \<and> getLogs defaultProvider [Rejects 5, Hangs, Resolves 9000 [''late'']] = Inr []"
proof -
  have t: "blockTimeoutMs defaultProvider = 3000" "headTimeoutMs defaultProvider = 500"
    by (simp_all add: defaultProvider_def)
  have c: "\<forall>c \<in> set [Rejects 5, Hangs, Resolves 3500 (JString ''late'')].
             callFails c (blockTimeoutMs defaultProvider)"
    by (simp add: callFails_def t)
  have h: "\<forall>c \<in> set [Hangs, Resolves 600 812000, Rejects 3].
             callFails c (headTimeoutMs defaultProvider)"
    by (simp add: callFails_def t)
  have l: "[Rejects 5, Hangs, Resolves 9000 [''late'']] \<noteq> []
           \<and> (\<forall>c \<in> set [Rejects 5, Hangs, Resolves 9000 [''late'']].
                 callFails c (blockTimeoutMs defaultProvider * 3))"
    by (simp add: callFails_def t)
  from total_failure[of "[Rejects 5, Hangs, Resolves 3500 (JString ''late'')]" defaultProvider
         "[Hangs, Resolves 600 812000, Rejects 3]" "[Rejects 5, Hangs, Resolves 9000 [''late'']]"]
       c h l
  show ?thesis by blast
qed

text \<open>
  The claim as stated fails for \<open>getLogs\<close>: with every endpoint failing, the call
  returns the empty list and no error.
\<close>

theorem getLogs_total_failure_counterexample:
  "callFails (Rejects 5 :: string list rpc) (blockTimeoutMs defaultProvider * 3)
   \<and> callFails (Hangs :: string list rpc) (blockTimeoutMs defaultProvider * 3)
   \<and> getLogs defaultProvider [Rejects 5, Hangs :: string list rpc] = Inr []"
  by (simp add: callFails_def getLogs_def logsOf_def defaultProvider_def)

section \<open>The reader's loops, one step at a time\<close>

declare tryGetBlockLoop.simps [simp del]
declare drain.simps [simp del]
declare fetchLoop.simps [simp del]

lemma drain_None:
  assumes "map_of buf (expectedBlockNumber s) = None"
  shows "drain e buf s = (None, buf, s)"
  using assms by (subst drain.simps) simp

lemma drain_fail:
  assumes "map_of buf (expectedBlockNumber s) = Some blk"
    and "processBlock e s blk = (d, s1)"
    and "saveLastProcessedBlock e s1 (expectedBlockNumber s1) = Inl err"
  shows "drain e buf s = (Some err, AList.delete (expectedBlockNumber s) buf, s1)"
  using assms by (subst drain.simps) simp

lemma drain_step:
  assumes "map_of buf (expectedBlockNumber s) = Some blk"
    and "processBlock e s blk = (d, s1)"
    and "saveLastProcessedBlock e s1 (expectedBlockNumber s1) = Inr s2"
  shows "drain e buf s =
           drain e (AList.delete (expectedBlockNumber s) buf)
             ((logAction (NewBlock d) s2)\<lparr>expectedBlockNumber := expectedBlockNumber s2 + 1\<rparr>)"
  using assms by (subst drain.simps) simp

lemma fetchLoop_done:
  assumes "\<not> nextBlock \<le> head"
  shows "fetchLoop e head nextBlock buf s seen = (None, buf, s, seen)"
  using assms by (subst fetchLoop.simps) simp

lemma fetchLoop_fail:
  assumes "nextBlock \<le> head"
    and "drain e (fetchBatch e buf [nextBlock..min head (nextBlock + maxParallelBlocks - 1)]) s
           = (Some err, buf2, s')"
  shows "fetchLoop e head nextBlock buf s seen =
           (Some err, buf2, s',
            seen @ [fetchBatch e buf [nextBlock..min head (nextBlock + maxParallelBlocks - 1)]])"
  using assms by (subst fetchLoop.simps) (simp add: Let_def)

lemma fetchLoop_step:
  assumes "nextBlock \<le> head"
    and "drain e (fetchBatch e buf [nextBlock..min head (nextBlock + maxParallelBlocks - 1)]) s
           = (None, buf2, s')"
  shows "fetchLoop e head nextBlock buf s seen =
           fetchLoop e head (min head (nextBlock + maxParallelBlocks - 1) + 1) buf2 s'
             (seen @ [fetchBatch e buf [nextBlock..min head (nextBlock + maxParallelBlocks - 1)]])"
  using assms by (subst fetchLoop.simps) (simp add: Let_def)

lemma logAction_fields:
  "trace (logAction a s) = trace s @ [(expectedBlockNumber s, lastBlockFile s, a)]"
  "expectedBlockNumber (logAction a s) = expectedBlockNumber s"
  "lastBlockFile (logAction a s) = lastBlockFile s"
  by (simp_all add: logAction_def)

lemma saveLastProcessedBlock_Inr:
  assumes "saveLastProcessedBlock e s n = Inr s2"
  shows "trace s2 = trace s @ [(expectedBlockNumber s, Content (Some n), Persisted n)]"
    and "expectedBlockNumber s2 = expectedBlockNumber s"
    and "lastBlockFile s2 = Content (Some n)"
  using assms by (auto simp: saveLastProcessedBlock_def logAction_def split: if_splits)

section \<open>Facts about the reader's building blocks\<close>

lemma saveLastProcessedBlock_ok:
  assumes "writeFile_ok e n"
  shows "saveLastProcessedBlock e s n =
           Inr (s\<lparr>lastBlockFile := Content (Some n),
                  trace := trace s @ [(expectedBlockNumber s, Content (Some n), Persisted n)]\<rparr>)"
  using assms by (simp add: saveLastProcessedBlock_def logAction_def)

lemma healthyEnv_fields:
  "blockNumber_resp (healthyEnv h) = Inr h"
  "writeFile_ok (healthyEnv h) n"
  "getBlock_resp (healthyEnv h) n k = Returns (Some (exampleBlock n))"
  by (simp_all add: healthyEnv_def)

lemma newReader_fields:
  "lastBlockFile (newReader f) = f"
  "trace (newReader f) = []"
  "expectedBlockNumber (newReader f) = 0"
  by (simp_all add: newReader_def)

section \<open>Fetching a block: how many attempts\<close>

text \<open>
  C6. On the code, a block whose every \<open>getBlock\<close> call throws is given up after two
  invocations and one sleep (each exception counts as two attempts), and a block whose
  every response lacks a hash is given up after three invocations with no sleep between
  them; the result is \<open>null\<close> in both cases.
\<close>

theorem tryGetBlock_attempts:
  "tryGetBlock (\<lambda>k. Throws) maxAttempts = (None, 2, 1)
   \<and> tryGetBlock (\<lambda>k. Returns None) maxAttempts = (None, 3, 0)
   \<and> tryGetBlock (\<lambda>k. Returns (Some ((exampleBlock 7)\<lparr>blk_hash := None\<rparr>))) maxAttempts
        = (None, 3, 0)"
  by (simp add: tryGetBlock_def maxAttempts_def blockOk_def exampleBlock_def tryGetBlockLoop.simps)

lemma tryGetBlockLoop_calls:
  "fst (snd (tryGetBlockLoop resp maxA attempts calls sleeps)) \<le> calls + (maxA - attempts)"
proof (induction resp maxA attempts calls sleeps rule: tryGetBlockLoop.induct)
  case (1 resp maxA attempts calls sleeps)
  show ?case
  proof (cases "attempts < maxA")
    case False
    then show ?thesis by (subst tryGetBlockLoop.simps) simp
  next
    case True
    show ?thesis
    proof (cases "resp calls")
      case Throws
      from "1.IH"(1)[OF True Throws]
      have "fst (snd (tryGetBlockLoop resp maxA (attempts + 1 + 1) (calls + 1)
                        (if attempts + 1 < maxA then sleeps + 1 else sleeps)))
              \<le> calls + (maxA - attempts)"
        using True by simp
      with True Throws show ?thesis
        by (subst tryGetBlockLoop.simps) simp
    next
      case (Returns b)
      show ?thesis
      proof (cases "blockOk b")
        case True
        with \<open>attempts < maxA\<close> Returns show ?thesis
          by (subst tryGetBlockLoop.simps) simp
      next
        case False
        from "1.IH"(2)[OF \<open>attempts < maxA\<close> Returns False]
        have "fst (snd (tryGetBlockLoop resp maxA (attempts + 1) (calls + 1) sleeps))
                \<le> calls + (maxA - attempts)"
          using \<open>attempts < maxA\<close> by simp
        with \<open>attempts < maxA\<close> Returns False show ?thesis
          by (subst tryGetBlockLoop.simps) simp
      qed
    qed
  qed
qed

lemma tryGetBlock_calls_le: "fst (snd (tryGetBlock resp maxAttempts)) \<le> 3"
  using tryGetBlockLoop_calls[of resp maxAttempts 0 0 0]
  by (simp add: tryGetBlock_def maxAttempts_def)

section \<open>The checkpoint is written before the block is announced\<close>

lemma checkpointed_no_announcement:
  assumes "\<forall>c f d. (c, f, NewBlock d) \<notin> set tr"
  shows "checkpointedAnnouncements tr cursor file"
  unfolding checkpointedAnnouncements_def
proof (intro allI impI)
  fix i c f d
  assume "i < length tr" and "tr ! i = (c, f, NewBlock d)"
  then have "(c, f, NewBlock d) \<in> set tr" by (metis nth_mem)
  with assms show "f = Content (Some c)
        \<and> 0 < i \<and> tr ! (i - 1) = (c, Content (Some c), Persisted c)
        \<and> (if i + 1 < length tr then fst (tr ! (i + 1)) = c + 1
            else cursor = c + 1 \<and> file = Content (Some c))"
    by blast
qed

lemma checkpointed_append_other:
  assumes inv: "checkpointedAnnouncements tr cursor file"
    and other: "\<forall>d. a \<noteq> NewBlock d"
  shows "checkpointedAnnouncements (tr @ [(cursor, file', a)]) cursor file'"
  unfolding checkpointedAnnouncements_def
proof (intro allI impI)
  fix i c f d
  assume i: "i < length (tr @ [(cursor, file', a)])"
    and at: "(tr @ [(cursor, file', a)]) ! i = (c, f, NewBlock d)"
  have "i \<noteq> length tr"
  proof
    assume "i = length tr"
    with at have "(cursor, file', a) = (c, f, NewBlock d)" by simp
    with other show False by simp
  qed
  with i have il: "i < length tr" by simp
  with at have old: "tr ! i = (c, f, NewBlock d)" by (simp add: nth_append)
  from inv il old have fc: "f = Content (Some c)" and pos: "0 < i"
    and prev: "tr ! (i - 1) = (c, Content (Some c), Persisted c)"
    and nxt: "if i + 1 < length tr then fst (tr ! (i + 1)) = c + 1
              else cursor = c + 1 \<and> file = Content (Some c)"
    unfolding checkpointedAnnouncements_def by blast+
  have "i - 1 < length tr" using il by arith
  then have "(tr @ [(cursor, file', a)]) ! (i - 1) = tr ! (i - 1)"
    by (simp only: nth_append if_True)
  with prev have "(tr @ [(cursor, file', a)]) ! (i - 1) = (c, Content (Some c), Persisted c)"
    by simp
  moreover have "fst ((tr @ [(cursor, file', a)]) ! (i + 1)) = c + 1"
  proof (cases "i + 1 < length tr")
    case True
    with nxt show ?thesis by (simp add: nth_append)
  next
    case False
    with il have "i + 1 = length tr" by simp
    moreover from False nxt have "cursor = c + 1" by simp
    ultimately show ?thesis by (simp add: nth_append)
  qed
  moreover have "i + 1 < length (tr @ [(cursor, file', a)])" using il by simp
  ultimately show "f = Content (Some c)
        \<and> 0 < i \<and> (tr @ [(cursor, file', a)]) ! (i - 1) = (c, Content (Some c), Persisted c)
        \<and> (if i + 1 < length (tr @ [(cursor, file', a)])
            then fst ((tr @ [(cursor, file', a)]) ! (i + 1)) = c + 1
            else cursor = c + 1 \<and> file' = Content (Some c))"
    using pos fc by simp
qed

lemma checkpointed_append_announcement:
  assumes inv: "checkpointedAnnouncements
                  (tr @ [(cursor, Content (Some cursor), Persisted cursor)]) cursor file"
  shows "checkpointedAnnouncements
           ((tr @ [(cursor, Content (Some cursor), Persisted cursor)])
              @ [(cursor, Content (Some cursor), NewBlock d)])
           (cursor + 1) (Content (Some cursor))"
  unfolding checkpointedAnnouncements_def
proof (intro allI impI)
  let ?tp = "tr @ [(cursor, Content (Some cursor), Persisted cursor)]"
  let ?t = "?tp @ [(cursor, Content (Some cursor), NewBlock d)]"
  fix i c f d'
  assume i: "i < length ?t" and at: "?t ! i = (c, f, NewBlock d')"
  show "f = Content (Some c)
        \<and> 0 < i \<and> ?t ! (i - 1) = (c, Content (Some c), Persisted c)
        \<and> (if i + 1 < length ?t then fst (?t ! (i + 1)) = c + 1
            else cursor + 1 = c + 1 \<and> Content (Some cursor) = Content (Some c))"
  proof (cases "i = length ?tp")
    case True
    have "?t ! length ?tp = (cursor, Content (Some cursor), NewBlock d)"
      by (rule nth_append_length)
    with at True have c: "c = cursor" and fc: "f = Content (Some cursor)" by simp_all
    have "i - 1 = length tr" using True by simp
    moreover have "(tr @ (cursor, Content (Some cursor), Persisted cursor)
                       # [(cursor, Content (Some cursor), NewBlock d)]) ! length tr
                     = (cursor, Content (Some cursor), Persisted cursor)"
      by (rule nth_append_length)
    ultimately have "?t ! (i - 1) = (cursor, Content (Some cursor), Persisted cursor)" by simp
    with True c fc show ?thesis by simp
  next
    case False
    with i have il: "i < length ?tp" by simp
    with at have old: "?tp ! i = (c, f, NewBlock d')"
      using nth_append[of ?tp "[(cursor, Content (Some cursor), NewBlock d)]" i] by simp
    have "i \<noteq> length tr"
    proof
      assume "i = length tr"
      with old show False by simp
    qed
    with il have it: "i + 1 < length ?tp" by simp
    from inv il old have fc: "f = Content (Some c)" and pos: "0 < i"
      and prev: "?tp ! (i - 1) = (c, Content (Some c), Persisted c)"
      and nxt: "if i + 1 < length ?tp then fst (?tp ! (i + 1)) = c + 1
                else cursor = c + 1 \<and> file = Content (Some c)"
      unfolding checkpointedAnnouncements_def by blast+
    from it nxt have n: "fst (?tp ! (i + 1)) = c + 1" by simp
    have im: "i - 1 < length ?tp" using il by arith
    have p': "?t ! (i - 1) = ?tp ! (i - 1)"
      using im by (simp only: nth_append if_True)
    have n': "?t ! (i + 1) = ?tp ! (i + 1)"
      using it by (simp only: nth_append if_True)
    have "i + 1 < length ?t" using it by simp
    with pos prev n p' n' fc show ?thesis by simp
  qed
qed

text \<open>The invariant, on reader states.\<close>

lemma logAction_checkpointed:
  assumes "checkpointedAnnouncements (trace s) (expectedBlockNumber s) (lastBlockFile s)"
    and "\<forall>d. a \<noteq> NewBlock d"
  shows "checkpointedAnnouncements (trace (logAction a s)) (expectedBlockNumber (logAction a s))
           (lastBlockFile (logAction a s))"
  using checkpointed_append_other[OF assms, of "lastBlockFile s"] by (simp add: logAction_fields)

lemma processTransaction_fields:
  "expectedBlockNumber (processTransaction h s) = expectedBlockNumber s"
  "trace (processTransaction h s) = trace s
   \<or> trace (processTransaction h s)
       = trace s @ [(expectedBlockNumber s, lastBlockFile s, NewTransaction h)]"
  "lastBlockFile (processTransaction h s) = lastBlockFile s"
  by (simp_all add: processTransaction_def logAction_def Let_def)

lemma processTransaction_checkpointed:
  assumes "checkpointedAnnouncements (trace s) (expectedBlockNumber s) (lastBlockFile s)"
  shows "checkpointedAnnouncements (trace (processTransaction h s))
           (expectedBlockNumber (processTransaction h s)) (lastBlockFile (processTransaction h s))"
proof -
  have "checkpointedAnnouncements
          (trace s @ [(expectedBlockNumber s, lastBlockFile s, NewTransaction h)])
          (expectedBlockNumber s) (lastBlockFile s)"
    using assms by (intro checkpointed_append_other) simp_all
  with assms processTransaction_fields(2)[of h s] show ?thesis
    by (auto simp: processTransaction_fields(1,3))
qed

lemma fold_processTransaction_checkpointed:
  assumes "checkpointedAnnouncements (trace s) (expectedBlockNumber s) (lastBlockFile s)"
  shows "checkpointedAnnouncements (trace (fold processTransaction txs s))
           (expectedBlockNumber (fold processTransaction txs s))
           (lastBlockFile (fold processTransaction txs s))"
  using assms
  by (induction txs arbitrary: s) (simp_all add: processTransaction_checkpointed)

lemma fold_processTransaction_cursor:
  "expectedBlockNumber (fold processTransaction txs s) = expectedBlockNumber s"
  by (induction txs arbitrary: s) (simp_all add: processTransaction_fields(1))

lemma fold_processTransaction_file:
  "lastBlockFile (fold processTransaction txs s) = lastBlockFile s"
  by (induction txs arbitrary: s) (simp_all add: processTransaction_fields(3))

lemma processBlock_fields:
  assumes "processBlock e s blk = (d, s1)"
  shows "expectedBlockNumber s1 = expectedBlockNumber s"
    and "bd_number d = blk_number blk"
    and "\<exists>txs. trace s1 = trace (fold processTransaction txs s)"
    and "lastBlockFile s1 = lastBlockFile s"
  using assms
  by (auto simp: processBlock_def Let_def fold_processTransaction_cursor
                 fold_processTransaction_file split: if_splits)

lemma processBlock_checkpointed:
  assumes "processBlock e s blk = (d, s1)"
    and "checkpointedAnnouncements (trace s) (expectedBlockNumber s) (lastBlockFile s)"
  shows "checkpointedAnnouncements (trace s1) (expectedBlockNumber s1) (lastBlockFile s1)"
proof -
  from processBlock_fields[OF assms(1)] obtain txs where
    t: "trace s1 = trace (fold processTransaction txs s)"
    and c: "expectedBlockNumber s1 = expectedBlockNumber s"
    and f: "lastBlockFile s1 = lastBlockFile s"
    by blast
  from fold_processTransaction_checkpointed[OF assms(2), of txs]
  show ?thesis by (simp add: t c f fold_processTransaction_cursor fold_processTransaction_file)
qed

lemma announce_checkpointed:
  assumes inv: "checkpointedAnnouncements (trace s1) (expectedBlockNumber s1) (lastBlockFile s1)"
    and save: "saveLastProcessedBlock e s1 (expectedBlockNumber s1) = Inr s2"
  shows "checkpointedAnnouncements
           (trace ((logAction (NewBlock d) s2)\<lparr>expectedBlockNumber := expectedBlockNumber s2 + 1\<rparr>))
           (expectedBlockNumber
              ((logAction (NewBlock d) s2)\<lparr>expectedBlockNumber := expectedBlockNumber s2 + 1\<rparr>))
           (lastBlockFile
              ((logAction (NewBlock d) s2)\<lparr>expectedBlockNumber := expectedBlockNumber s2 + 1\<rparr>))"
proof -
  let ?c = "expectedBlockNumber s1"
  from save have f: "trace s2 = trace s1 @ [(?c, Content (Some ?c), Persisted ?c)]"
    "expectedBlockNumber s2 = ?c" "lastBlockFile s2 = Content (Some ?c)"
    by (auto simp: saveLastProcessedBlock_def logAction_def split: if_splits)
  have "checkpointedAnnouncements (trace s1 @ [(?c, Content (Some ?c), Persisted ?c)]) ?c
          (Content (Some ?c))"
    using inv by (intro checkpointed_append_other) simp_all
  then have "checkpointedAnnouncements
               ((trace s1 @ [(?c, Content (Some ?c), Persisted ?c)])
                  @ [(?c, Content (Some ?c), NewBlock d)]) (?c + 1) (Content (Some ?c))"
    by (rule checkpointed_append_announcement)
  then show ?thesis by (simp add: f logAction_fields)
qed

lemma drain_checkpointed:
  assumes "checkpointedAnnouncements (trace s) (expectedBlockNumber s) (lastBlockFile s)"
    and "drain e buf s = (r, buf', s')"
  shows "checkpointedAnnouncements (trace s') (expectedBlockNumber s') (lastBlockFile s')"
  using assms
proof (induction e buf s arbitrary: r buf' s' rule: drain.induct)
  case (1 e buf s)
  show ?case
  proof (cases "map_of buf (expectedBlockNumber s)")
    case None
    from "1.prems"(2) drain_None[OF None, of e] have "s' = s" by simp
    with "1.prems"(1) show ?thesis by simp
  next
    case (Some blk)
    obtain d s1 where pb: "processBlock e s blk = (d, s1)" by (cases "processBlock e s blk")
    note inv1 = processBlock_checkpointed[OF pb "1.prems"(1)]
    show ?thesis
    proof (cases "saveLastProcessedBlock e s1 (expectedBlockNumber s1)")
      case (Inl err)
      from "1.prems"(2) drain_fail[OF Some pb Inl] have "s' = s1" by simp
      with inv1 show ?thesis by simp
    next
      case (Inr s2)
      let ?next = "(logAction (NewBlock d) s2)\<lparr>expectedBlockNumber := expectedBlockNumber s2 + 1\<rparr>"
      have inv2: "checkpointedAnnouncements (trace ?next) (expectedBlockNumber ?next)
                    (lastBlockFile ?next)"
        using inv1 Inr by (rule announce_checkpointed)
      have rec: "drain e (AList.delete (expectedBlockNumber s) buf) ?next = (r, buf', s')"
        using "1.prems"(2) drain_step[OF Some pb Inr] by simp
      show ?thesis
        using "1.IH"[OF Some refl pb[symmetric] Inr inv2 rec] .
    qed
  qed
qed

lemma fetchLoop_checkpointed:
  assumes "checkpointedAnnouncements (trace s) (expectedBlockNumber s) (lastBlockFile s)"
    and "fetchLoop e head nextBlock buf s seen = (r, buf', s', seen')"
  shows "checkpointedAnnouncements (trace s') (expectedBlockNumber s') (lastBlockFile s')"
  using assms
proof (induction e head nextBlock buf s seen arbitrary: r buf' s' seen' rule: fetchLoop.induct)
  case (1 e head nextBlock buf s seen)
  show ?case
  proof (cases "nextBlock \<le> head")
    case False
    from "1.prems"(2) fetchLoop_done[OF False, of e buf s seen] have "s' = s" by simp
    with "1.prems"(1) show ?thesis by simp
  next
    case True
    let ?last = "min head (nextBlock + maxParallelBlocks - 1)"
    let ?buf1 = "fetchBatch e buf [nextBlock..?last]"
    obtain r1 buf2 s1 where dr: "drain e ?buf1 s = (r1, buf2, s1)"
      by (cases "drain e ?buf1 s") auto
    note inv1 = drain_checkpointed[OF "1.prems"(1) dr]
    show ?thesis
    proof (cases r1)
      case (Some err)
      from "1.prems"(2) fetchLoop_fail[OF True dr[unfolded Some], of seen] have "s' = s1" by simp
      with inv1 show ?thesis by simp
    next
      case None
      have rec: "fetchLoop e head (?last + 1) buf2 s1 (seen @ [?buf1]) = (r, buf', s', seen')"
        using "1.prems"(2) fetchLoop_step[OF True dr[unfolded None], of seen] by simp
      show ?thesis
        using "1.IH"[OF True refl refl dr[symmetric] None refl inv1 rec] .
    qed
  qed
qed

text \<open>What one run of the loop leaves: the state the batches reached, or that state with the error event.\<close>

lemma readBlocksLoop_cases:
  obtains (height_fails) err where "blockNumber_resp e = Inl err"
      and "readBlocksLoop e s = logAction (ErrorEvent err) s"
  | (completes) h buf s1 seen where "blockNumber_resp e = Inr h"
      and "fetchLoop e (if h < expectedBlockNumber s then expectedBlockNumber s else h)
             (expectedBlockNumber s) [] s [] = (None, buf, s1, seen)"
      and "readBlocksLoop e s = s1"
  | (fails) h err buf s1 seen where "blockNumber_resp e = Inr h"
      and "fetchLoop e (if h < expectedBlockNumber s then expectedBlockNumber s else h)
             (expectedBlockNumber s) [] s [] = (Some err, buf, s1, seen)"
      and "readBlocksLoop e s = logAction (ErrorEvent err) s1"
proof (cases "blockNumber_resp e")
  case (Inl err)
  then have "readBlocksLoop e s = logAction (ErrorEvent err) s"
    by (simp add: readBlocksLoop_def readBlocksRun_def)
  with Inl show ?thesis by (rule height_fails)
next
  case (Inr h)
  let ?head = "if h < expectedBlockNumber s then expectedBlockNumber s else h"
  obtain r buf s1 seen where fl: "fetchLoop e ?head (expectedBlockNumber s) [] s [] = (r, buf, s1, seen)"
    by (cases "fetchLoop e ?head (expectedBlockNumber s) [] s []") auto
  show ?thesis
  proof (cases r)
    case None
    with Inr fl have "readBlocksLoop e s = s1"
      by (simp add: readBlocksLoop_def readBlocksRun_def Let_def)
    with Inr fl[unfolded None] show ?thesis by (rule completes)
  next
    case (Some err)
    with Inr fl have "readBlocksLoop e s = logAction (ErrorEvent err) s1"
      by (simp add: readBlocksLoop_def readBlocksRun_def Let_def)
    with Inr fl[unfolded Some] show ?thesis by (rule fails)
  qed
qed

lemma readBlocksLoop_checkpointed:
  assumes "checkpointedAnnouncements (trace s) (expectedBlockNumber s) (lastBlockFile s)"
  shows "checkpointedAnnouncements (trace (readBlocksLoop e s))
           (expectedBlockNumber (readBlocksLoop e s)) (lastBlockFile (readBlocksLoop e s))"
proof (cases e s rule: readBlocksLoop_cases)
  case (height_fails err)
  with assms show ?thesis by (simp add: logAction_checkpointed)
next
  case (completes h buf s1 seen)
  from fetchLoop_checkpointed[OF assms completes(2)] completes(3) show ?thesis by simp
next
  case (fails h err buf s1 seen)
  from fetchLoop_checkpointed[OF assms fails(2)] fails(3) show ?thesis
    by (simp add: logAction_checkpointed)
qed

lemma readBlocksLoops_checkpointed:
  assumes "checkpointedAnnouncements (trace s) (expectedBlockNumber s) (lastBlockFile s)"
  shows "checkpointedAnnouncements (trace (readBlocksLoops es s))
           (expectedBlockNumber (readBlocksLoops es s)) (lastBlockFile (readBlocksLoops es s))"
  using assms
  by (induction es arbitrary: s) (simp_all add: readBlocksLoop_checkpointed)

lemma loadLastProcessedBlock_no_announcement:
  assumes "\<forall>c f d. (c, f, NewBlock d) \<notin> set (trace s)"
  shows "\<forall>c f d. (c, f, NewBlock d) \<notin> set (trace (snd (loadLastProcessedBlock e s)))"
  using assms
  by (auto simp: loadLastProcessedBlock_def saveLastProcessedBlock_def logAction_def Let_def
           split: file_content.splits sum.splits if_splits)

lemma startCursor_no_announcement:
  "\<forall>c f d. (c, f, NewBlock d) \<notin> set (trace (startCursor e (newReader file)))"
proof -
  have "\<forall>c f d. (c, f, NewBlock d) \<notin> set (trace (newReader file))"
    by (simp add: newReader_def)
  from loadLastProcessedBlock_no_announcement[OF this, of e]
  show ?thesis by (simp add: startCursor_def case_prod_unfold Let_def)
qed

lemma startCursor_checkpointed:
  "checkpointedAnnouncements (trace (startCursor e (newReader file)))
     (expectedBlockNumber (startCursor e (newReader file)))
     (lastBlockFile (startCursor e (newReader file)))"
  using startCursor_no_announcement by (rule checkpointed_no_announcement)

section \<open>The announced block is the one the cursor asked for\<close>

lemma tryGetBlockLoop_Some:
  assumes "fst (tryGetBlockLoop resp maxA attempts calls sleeps) = Some b"
  shows "\<exists>k. resp k = Returns (Some b)"
  using assms
proof (induction resp maxA attempts calls sleeps rule: tryGetBlockLoop.induct)
  case (1 resp maxA attempts calls sleeps)
  show ?case
  proof (cases "attempts < maxA")
    case False
    with "1.prems" show ?thesis by (subst (asm) tryGetBlockLoop.simps) simp
  next
    case True
    show ?thesis
    proof (cases "resp calls")
      case Throws
      from "1.prems" True Throws
      have "fst (tryGetBlockLoop resp maxA (attempts + 1 + 1) (calls + 1)
                   (if attempts + 1 < maxA then sleeps + 1 else sleeps)) = Some b"
        by (subst (asm) tryGetBlockLoop.simps) simp
      from "1.IH"(1)[OF True Throws this] show ?thesis .
    next
      case (Returns r)
      show ?thesis
      proof (cases "blockOk r")
        case ok: True
        from "1.prems" True Returns ok have "r = Some b"
          by (subst (asm) tryGetBlockLoop.simps) simp
        with Returns show ?thesis by blast
      next
        case False
        from "1.prems" True Returns False
        have "fst (tryGetBlockLoop resp maxA (attempts + 1) (calls + 1) sleeps) = Some b"
          by (subst (asm) tryGetBlockLoop.simps) simp
        from "1.IH"(2)[OF True Returns False this] show ?thesis .
      qed
    qed
  qed
qed

lemma bufferByNumber_update:
  assumes "bufferByNumber buf" and "blk_number b = n"
  shows "bufferByNumber (AList.update n b buf)"
  using assms by (auto simp: bufferByNumber_def update_conv' split: if_splits)

lemma bufferByNumber_delete:
  assumes "bufferByNumber buf"
  shows "bufferByNumber (AList.delete k buf)"
  using assms by (auto simp: bufferByNumber_def delete_conv' split: if_splits)

lemma fetchBatch_byNumber:
  assumes "answersAsked e" and "bufferByNumber buf"
  shows "bufferByNumber (fetchBatch e buf ns)"
  using assms(2)
proof (induction ns arbitrary: buf)
  case Nil
  then show ?case by (simp add: fetchBatch_def)
next
  case (Cons n ns)
  let ?got = "fst (tryGetBlock (getBlock_resp e n) maxAttempts)"
  have step: "bufferByNumber (case ?got of Some blk \<Rightarrow> AList.update n blk buf | None \<Rightarrow> buf)"
  proof (cases ?got)
    case None
    with Cons.prems show ?thesis by simp
  next
    case (Some blk)
    then obtain k where "getBlock_resp e n k = Returns (Some blk)"
      using tryGetBlockLoop_Some[of "getBlock_resp e n" maxAttempts 0 0 0 blk]
      by (auto simp: tryGetBlock_def)
    with assms(1) have "blk_number blk = n" by (simp add: answersAsked_def)
    with Cons.prems Some show ?thesis by (simp add: bufferByNumber_update)
  qed
  from Cons.IH[OF step] show ?case by (simp add: fetchBatch_def)
qed

lemma announcedByNumber_append:
  "announcedByNumber (tr @ [(c, f, a)]) =
     (announcedByNumber tr \<and> (\<forall>d. a = NewBlock d \<longrightarrow> bd_number d = c))"
  by (auto simp: announcedByNumber_def)

lemma processTransaction_byNumber:
  assumes "announcedByNumber (trace s)"
  shows "announcedByNumber (trace (processTransaction h s))"
  using assms processTransaction_fields(2)[of h s]
  by (auto simp: announcedByNumber_append)

lemma fold_processTransaction_byNumber:
  assumes "announcedByNumber (trace s)"
  shows "announcedByNumber (trace (fold processTransaction txs s))"
  using assms
  by (induction txs arbitrary: s) (simp_all add: processTransaction_byNumber)

lemma processBlock_byNumber:
  assumes "processBlock e s blk = (d, s1)" and "announcedByNumber (trace s)"
  shows "announcedByNumber (trace s1)"
  using processBlock_fields(3)[OF assms(1)] fold_processTransaction_byNumber[OF assms(2)]
  by auto

lemma drain_byNumber:
  assumes "bufferByNumber buf" and "announcedByNumber (trace s)"
    and "drain e buf s = (r, buf', s')"
  shows "announcedByNumber (trace s')"
  using assms
proof (induction e buf s arbitrary: r buf' s' rule: drain.induct)
  case (1 e buf s)
  show ?case
  proof (cases "map_of buf (expectedBlockNumber s)")
    case None
    from "1.prems"(3) drain_None[OF None, of e] have "s' = s" by simp
    with "1.prems"(2) show ?thesis by simp
  next
    case (Some blk)
    obtain d s1 where pb: "processBlock e s blk = (d, s1)" by (cases "processBlock e s blk")
    note n1 = processBlock_byNumber[OF pb "1.prems"(2)]
    note f1 = processBlock_fields(1,2)[OF pb]
    from "1.prems"(1) Some have num: "blk_number blk = expectedBlockNumber s"
      by (simp add: bufferByNumber_def)
    show ?thesis
    proof (cases "saveLastProcessedBlock e s1 (expectedBlockNumber s1)")
      case (Inl err)
      from "1.prems"(3) drain_fail[OF Some pb Inl] have "s' = s1" by simp
      with n1 show ?thesis by simp
    next
      case (Inr s2)
      let ?next = "(logAction (NewBlock d) s2)\<lparr>expectedBlockNumber := expectedBlockNumber s2 + 1\<rparr>"
      note f2 = saveLastProcessedBlock_Inr[OF Inr]
      have n2: "announcedByNumber (trace ?next)"
        using n1 f1 f2 num
        by (auto simp: logAction_fields announcedByNumber_def)
      have rec: "drain e (AList.delete (expectedBlockNumber s) buf) ?next = (r, buf', s')"
        using "1.prems"(3) drain_step[OF Some pb Inr] by simp
      show ?thesis
        using "1.IH"[OF Some refl pb[symmetric] Inr bufferByNumber_delete[OF "1.prems"(1)] n2 rec] .
    qed
  qed
qed

lemma drain_buffer_byNumber:
  assumes "bufferByNumber buf" and "drain e buf s = (r, buf', s')"
  shows "bufferByNumber buf'"
  using assms
proof (induction e buf s arbitrary: r buf' s' rule: drain.induct)
  case (1 e buf s)
  show ?case
  proof (cases "map_of buf (expectedBlockNumber s)")
    case None
    from "1.prems"(2) drain_None[OF None, of e] have "buf' = buf" by simp
    with "1.prems"(1) show ?thesis by simp
  next
    case (Some blk)
    obtain d s1 where pb: "processBlock e s blk = (d, s1)" by (cases "processBlock e s blk")
    note del = bufferByNumber_delete[OF "1.prems"(1), of "expectedBlockNumber s"]
    show ?thesis
    proof (cases "saveLastProcessedBlock e s1 (expectedBlockNumber s1)")
      case (Inl err)
      from "1.prems"(2) drain_fail[OF Some pb Inl]
      have "buf' = AList.delete (expectedBlockNumber s) buf" by simp
      with del show ?thesis by simp
    next
      case (Inr s2)
      let ?next = "(logAction (NewBlock d) s2)\<lparr>expectedBlockNumber := expectedBlockNumber s2 + 1\<rparr>"
      have rec: "drain e (AList.delete (expectedBlockNumber s) buf) ?next = (r, buf', s')"
        using "1.prems"(2) drain_step[OF Some pb Inr] by simp
      show ?thesis
        using "1.IH"[OF Some refl pb[symmetric] Inr del rec] .
    qed
  qed
qed

lemma fetchLoop_byNumber:
  assumes "answersAsked e" and "bufferByNumber buf" and "announcedByNumber (trace s)"
    and "fetchLoop e head nextBlock buf s seen = (r, buf', s', seen')"
  shows "announcedByNumber (trace s')"
  using assms
proof (induction e head nextBlock buf s seen arbitrary: r buf' s' seen' rule: fetchLoop.induct)
  case (1 e head nextBlock buf s seen)
  show ?case
  proof (cases "nextBlock \<le> head")
    case False
    from "1.prems"(4) fetchLoop_done[OF False, of e buf s seen] have "s' = s" by simp
    with "1.prems"(3) show ?thesis by simp
  next
    case True
    let ?last = "min head (nextBlock + maxParallelBlocks - 1)"
    let ?buf1 = "fetchBatch e buf [nextBlock..?last]"
    obtain r1 buf2 s1 where dr: "drain e ?buf1 s = (r1, buf2, s1)"
      by (cases "drain e ?buf1 s") auto
    note b1 = fetchBatch_byNumber[OF "1.prems"(1,2), of "[nextBlock..?last]"]
    note n1 = drain_byNumber[OF b1 "1.prems"(3) dr]
    note b2 = drain_buffer_byNumber[OF b1 dr]
    show ?thesis
    proof (cases r1)
      case (Some err)
      from "1.prems"(4) fetchLoop_fail[OF True dr[unfolded Some], of seen] have "s' = s1" by simp
      with n1 show ?thesis by simp
    next
      case None
      have rec: "fetchLoop e head (?last + 1) buf2 s1 (seen @ [?buf1]) = (r, buf', s', seen')"
        using "1.prems"(4) fetchLoop_step[OF True dr[unfolded None], of seen] by simp
      show ?thesis
        using "1.IH"[OF True refl refl dr[symmetric] None refl "1.prems"(1) b2 n1 rec] .
    qed
  qed
qed

lemma readBlocksLoop_byNumber:
  assumes "answersAsked e" and "announcedByNumber (trace s)"
  shows "announcedByNumber (trace (readBlocksLoop e s))"
proof (cases e s rule: readBlocksLoop_cases)
  case (height_fails err)
  with assms(2) show ?thesis by (simp add: logAction_fields announcedByNumber_append)
next
  case (completes h buf s1 seen)
  have "bufferByNumber []" by (simp add: bufferByNumber_def)
  from fetchLoop_byNumber[OF assms(1) this assms(2) completes(2)] completes(3)
  show ?thesis by simp
next
  case (fails h err buf s1 seen)
  have "bufferByNumber []" by (simp add: bufferByNumber_def)
  from fetchLoop_byNumber[OF assms(1) this assms(2) fails(2)] fails(3)
  show ?thesis by (simp add: logAction_fields announcedByNumber_append)
qed

lemma readBlocksLoops_byNumber:
  assumes "\<forall>e \<in> set es. answersAsked e" and "announcedByNumber (trace s)"
  shows "announcedByNumber (trace (readBlocksLoops es s))"
  using assms
  by (induction es arbitrary: s) (simp_all add: readBlocksLoop_byNumber)

lemma startCursor_byNumber: "announcedByNumber (trace (startCursor e (newReader file)))"
  using startCursor_no_announcement[of e "file"] by (simp add: announcedByNumber_def)

lemma start_byNumber:
  assumes "\<forall>e \<in> set es. answersAsked e"
  shows "announcedByNumber (trace (start e0 es (newReader file)))"
  unfolding start_def using assms startCursor_byNumber by (rule readBlocksLoops_byNumber)

text \<open>
  C5. A successful call of \<open>saveLastProcessedBlock\<close> leaves the checkpoint file
  \<open>lastBlockFile\<close> holding the value written, and that is what the trace records as a
  write. One run of the loop keeps the following true of the reader, and it is true of
  every reader started on any checkpoint file and run for any number of loop runs: at
  the moment a new-block announcement is made the checkpoint file holds the value of
  the cursor, the action just before the announcement is the successful write of that
  value to the file, the cursor still has that value when the block is announced, and
  it is exactly one more at whatever happens next (with the file still holding the
  announced value if nothing has happened since). When the provider answers each request
  with the block of the requested number, the announced block's number is that cursor
  value.
\<close>

theorem checkpoint_before_announce:
  "(saveLastProcessedBlock e s1 n = Inr s2 \<longrightarrow>
      lastBlockFile s2 = Content (Some n)
    \<and> expectedBlockNumber s2 = expectedBlockNumber s1
    \<and> trace s2 = trace s1 @ [(expectedBlockNumber s1, Content (Some n), Persisted n)])
   \<and> (checkpointedAnnouncements (trace s) (expectedBlockNumber s) (lastBlockFile s) \<longrightarrow>
      checkpointedAnnouncements (trace (readBlocksLoop e s))
        (expectedBlockNumber (readBlocksLoop e s)) (lastBlockFile (readBlocksLoop e s)))
   \<and> checkpointedAnnouncements (trace (start e0 es (newReader f)))
        (expectedBlockNumber (start e0 es (newReader f)))
        (lastBlockFile (start e0 es (newReader f)))
   \<and> ((\<forall>e' \<in> set es. answersAsked e') \<longrightarrow>
        announcedByNumber (trace (start e0 es (newReader f))))"
proof -
  have written: "saveLastProcessedBlock e s1 n = Inr s2 \<longrightarrow>
      lastBlockFile s2 = Content (Some n)
    \<and> expectedBlockNumber s2 = expectedBlockNumber s1
    \<and> trace s2 = trace s1 @ [(expectedBlockNumber s1, Content (Some n), Persisted n)]"
    by (auto simp: saveLastProcessedBlock_def logAction_def split: if_splits)
  have run: "checkpointedAnnouncements (trace s) (expectedBlockNumber s) (lastBlockFile s) \<longrightarrow>
      checkpointedAnnouncements (trace (readBlocksLoop e s))
        (expectedBlockNumber (readBlocksLoop e s)) (lastBlockFile (readBlocksLoop e s))"
    using readBlocksLoop_checkpointed[of s e] by blast
  have started: "checkpointedAnnouncements (trace (start e0 es (newReader f)))
        (expectedBlockNumber (start e0 es (newReader f)))
        (lastBlockFile (start e0 es (newReader f)))"
    unfolding start_def using startCursor_checkpointed by (rule readBlocksLoops_checkpointed)
  have numbered: "(\<forall>e' \<in> set es. answersAsked e') \<longrightarrow>
        announcedByNumber (trace (start e0 es (newReader f)))"
    using start_byNumber[of es e0 f] by blast
  from written run started numbered show ?thesis by (intro conjI)
qed

theorem checkpoint_before_announce_witness:
  "trace (start (healthyEnv 9) [healthyEnv 9] (newReader (Content (Some 7)))) ! 3
     = (9, Content (Some 9),
          NewBlock \<lparr> bd_source = ''READER'', bd_number = 9, bd_hash = Some ''0xab'',
                     bd_timestamp = 0, bd_transactions = [] \<rparr>)
   \<and> trace (start (healthyEnv 9) [healthyEnv 9] (newReader (Content (Some 7)))) ! 2
       = (9, Content (Some 9), Persisted 9)
   \<and> expectedBlockNumber (start (healthyEnv 9) [healthyEnv 9] (newReader (Content (Some 7)))) = 10
   \<and> lastBlockFile (start (healthyEnv 9) [healthyEnv 9] (newReader (Content (Some 7))))
       = Content (Some 9)
   \<and> answersAsked (healthyEnv 9)
   \<and> announcedByNumber (trace (start (healthyEnv 9) [healthyEnv 9] (newReader (Content (Some 7)))))"
proof -
  let ?run = "start (healthyEnv 9) [healthyEnv 9] (newReader (Content (Some 7)))"
  let ?d = "\<lparr> bd_source = ''READER'', bd_number = 9, bd_hash = Some ''0xab'',
               bd_timestamp = 0, bd_transactions = [] \<rparr>"
  note inst = checkpoint_before_announce[where e = "healthyEnv 9" and ?e0.0 = "healthyEnv 9"
               and es = "[healthyEnv 9]" and f = "Content (Some 7)"]
  have tr: "trace ?run
     = [(8, Content (Some 8), Persisted 8),
        (8, Content (Some 8),
           NewBlock \<lparr> bd_source = ''READER'', bd_number = 8, bd_hash = Some ''0xab'',
                      bd_timestamp = 0, bd_transactions = [] \<rparr>),
        (9, Content (Some 9), Persisted 9),
        (9, Content (Some 9), NewBlock ?d)]"
    by code_simp
  have at3: "trace ?run ! 3 = (9, Content (Some 9), NewBlock ?d)"
    by (simp add: tr)
  have len: "length (trace ?run) = 4" by (simp add: tr)
  then have l3: "3 < length (trace ?run)" by simp
  from inst have "checkpointedAnnouncements (trace ?run) (expectedBlockNumber ?run)
                    (lastBlockFile ?run)"
    by blast
  with l3 at3 have "trace ?run ! (3 - 1) = (9, Content (Some 9), Persisted 9)
       \<and> (if 3 + 1 < length (trace ?run) then fst (trace ?run ! (3 + 1)) = 9 + 1
           else expectedBlockNumber ?run = 9 + 1 \<and> lastBlockFile ?run = Content (Some 9))"
    unfolding checkpointedAnnouncements_def by blast
  then have prev: "trace ?run ! 2 = (9, Content (Some 9), Persisted 9)"
    and cur: "expectedBlockNumber ?run = 10"
    and fc: "lastBlockFile ?run = Content (Some 9)"
    unfolding len by simp_all
  have asked: "answersAsked (healthyEnv 9)"
    by (simp add: answersAsked_def healthyEnv_def exampleBlock_def)
  with inst have "announcedByNumber (trace ?run)" by simp
  with at3 prev cur fc asked show ?thesis by simp
qed

section \<open>The announcements of a run, in order\<close>

lemma announcedAt_append:
  "announcedAt (tr @ [(c, f, a)])
     = announcedAt tr @ (case announcedNumber a of Some n \<Rightarrow> [c] | None \<Rightarrow> [])"
  by (simp add: announcedAt_def split: option.splits)

lemma announcedAt_none:
  assumes "\<forall>c f d. (c, f, NewBlock d) \<notin> set tr"
  shows "announcedAt tr = []"
proof -
  have "announcedNumber (snd (snd x)) = None" if "x \<in> set tr" for x
  proof (cases x)
    case (fields c f a)
    with that assms show ?thesis by (cases a) auto
  qed
  then show ?thesis by (simp add: announcedAt_def filter_empty_conv)
qed

lemma announcedNumbers_byNumber:
  assumes "announcedByNumber tr"
  shows "announcedNumbers tr = announcedAt tr"
  using assms
proof (induction tr)
  case Nil
  show ?case by (simp add: announcedNumbers_def announcedAt_def map_filter_simps)
next
  case (Cons x tr)
  from Cons.prems have rest: "announcedByNumber tr"
    by (auto simp: announcedByNumber_def)
  from Cons.IH[OF rest] have ih: "List.map_filter (\<lambda>x. announcedNumber (snd (snd x))) tr
      = map fst (filter (\<lambda>x. announcedNumber (snd (snd x)) \<noteq> None) tr)"
    by (simp add: announcedNumbers_def announcedAt_def)
  obtain c f a where x: "x = (c, f, a)" by (rule prod_cases3)
  show ?case
  proof (cases a)
    case (NewBlock d)
    from Cons.prems have "announcedByNumber ((c, f, NewBlock d) # tr)"
      by (simp only: x NewBlock)
    then have "bd_number d = c"
      unfolding announcedByNumber_def by (metis list.set_intros(1))
    with x NewBlock ih show ?thesis
      by (simp add: announcedNumbers_def announcedAt_def map_filter_simps)
  qed (use x ih in \<open>simp_all add: announcedNumbers_def announcedAt_def map_filter_simps\<close>)
qed

lemma upto_join:
  fixes a b c :: int
  assumes "a \<le> b" and "b \<le> c"
  shows "[a..b - 1] @ [b..c - 1] = [a..c - 1]"
proof (cases "b \<le> c - 1")
  case True
  from upto_split1[OF assms(1) True] show ?thesis by simp
next
  case False
  with assms(2) have "b = c" by simp
  then show ?thesis by simp
qed

lemma processTransaction_announcedAt:
  "announcedAt (trace (processTransaction h s)) = announcedAt (trace s)"
  using processTransaction_fields(2)[of h s] by (auto simp: announcedAt_append)

lemma fold_processTransaction_announcedAt:
  "announcedAt (trace (fold processTransaction txs s)) = announcedAt (trace s)"
  by (induction txs arbitrary: s) (simp_all add: processTransaction_announcedAt)

lemma processBlock_announcedAt:
  assumes "processBlock e s blk = (d, s1)"
  shows "announcedAt (trace s1) = announcedAt (trace s)"
  using processBlock_fields(3)[OF assms] by (auto simp: fold_processTransaction_announcedAt)

lemma drain_announcedAt:
  assumes "drain e buf s = (r, buf', s')"
  shows "expectedBlockNumber s \<le> expectedBlockNumber s'
       \<and> announcedAt (trace s')
           = announcedAt (trace s) @ [expectedBlockNumber s..expectedBlockNumber s' - 1]"
  using assms
proof (induction e buf s arbitrary: r buf' s' rule: drain.induct)
  case (1 e buf s)
  show ?case
  proof (cases "map_of buf (expectedBlockNumber s)")
    case None
    from "1.prems" drain_None[OF None, of e] have "s' = s" by simp
    then show ?thesis by simp
  next
    case (Some blk)
    obtain d s1 where pb: "processBlock e s blk = (d, s1)" by (cases "processBlock e s blk")
    note c1 = processBlock_fields(1)[OF pb]
    note a1 = processBlock_announcedAt[OF pb]
    show ?thesis
    proof (cases "saveLastProcessedBlock e s1 (expectedBlockNumber s1)")
      case (Inl err)
      from "1.prems" drain_fail[OF Some pb Inl] have "s' = s1" by simp
      with c1 a1 show ?thesis by simp
    next
      case (Inr s2)
      let ?next = "(logAction (NewBlock d) s2)\<lparr>expectedBlockNumber := expectedBlockNumber s2 + 1\<rparr>"
      note f2 = saveLastProcessedBlock_Inr[OF Inr]
      have cn: "expectedBlockNumber ?next = expectedBlockNumber s + 1"
        by (simp add: c1 f2 logAction_fields)
      have a2: "announcedAt (trace s2) = announcedAt (trace s1)"
        unfolding f2(1) announcedAt_append by simp
      have tn: "trace ?next = trace s2 @ [(expectedBlockNumber s2, lastBlockFile s2, NewBlock d)]"
        by (simp add: logAction_fields)
      have an: "announcedAt (trace ?next) = announcedAt (trace s) @ [expectedBlockNumber s]"
        unfolding tn announcedAt_append by (simp add: a2 a1 c1 f2(2))
      have rec: "drain e (AList.delete (expectedBlockNumber s) buf) ?next = (r, buf', s')"
        using "1.prems" drain_step[OF Some pb Inr] by simp
      from "1.IH"[OF Some refl pb[symmetric] Inr rec]
      have le: "expectedBlockNumber ?next \<le> expectedBlockNumber s'"
        and eq: "announcedAt (trace s')
                   = announcedAt (trace ?next) @ [expectedBlockNumber ?next..expectedBlockNumber s' - 1]"
        by blast+
      from le have le': "expectedBlockNumber s \<le> expectedBlockNumber s' - 1"
        by (simp only: cn)
      have "announcedAt (trace s')
              = announcedAt (trace s) @ expectedBlockNumber s
                  # [expectedBlockNumber s + 1..expectedBlockNumber s' - 1]"
        by (simp only: eq an cn) simp
      also have "expectedBlockNumber s # [expectedBlockNumber s + 1..expectedBlockNumber s' - 1]
                   = [expectedBlockNumber s..expectedBlockNumber s' - 1]"
        using upto_rec1[OF le'] by simp
      finally show ?thesis using le' by simp
    qed
  qed
qed

lemma fetchLoop_announcedAt:
  assumes "fetchLoop e head nextBlock buf s seen = (r, buf', s', seen')"
  shows "expectedBlockNumber s \<le> expectedBlockNumber s'
       \<and> announcedAt (trace s')
           = announcedAt (trace s) @ [expectedBlockNumber s..expectedBlockNumber s' - 1]"
  using assms
proof (induction e head nextBlock buf s seen arbitrary: r buf' s' seen' rule: fetchLoop.induct)
  case (1 e head nextBlock buf s seen)
  show ?case
  proof (cases "nextBlock \<le> head")
    case False
    from "1.prems" fetchLoop_done[OF False, of e buf s seen] have "s' = s" by simp
    then show ?thesis by simp
  next
    case True
    let ?last = "min head (nextBlock + maxParallelBlocks - 1)"
    let ?buf1 = "fetchBatch e buf [nextBlock..?last]"
    obtain r1 buf2 s1 where dr: "drain e ?buf1 s = (r1, buf2, s1)"
      by (cases "drain e ?buf1 s") auto
    from drain_announcedAt[OF dr]
    have le1: "expectedBlockNumber s \<le> expectedBlockNumber s1"
      and eq1: "announcedAt (trace s1)
                  = announcedAt (trace s) @ [expectedBlockNumber s..expectedBlockNumber s1 - 1]"
      by blast+
    show ?thesis
    proof (cases r1)
      case (Some err)
      from "1.prems" fetchLoop_fail[OF True dr[unfolded Some], of seen] have "s' = s1" by simp
      with le1 eq1 show ?thesis by simp
    next
      case None
      have rec: "fetchLoop e head (?last + 1) buf2 s1 (seen @ [?buf1]) = (r, buf', s', seen')"
        using "1.prems" fetchLoop_step[OF True dr[unfolded None], of seen] by simp
      from "1.IH"[OF True refl refl dr[symmetric] None refl rec]
      have le2: "expectedBlockNumber s1 \<le> expectedBlockNumber s'"
        and eq2: "announcedAt (trace s')
                    = announcedAt (trace s1) @ [expectedBlockNumber s1..expectedBlockNumber s' - 1]"
        by blast+
      have "announcedAt (trace s')
              = announcedAt (trace s)
                  @ [expectedBlockNumber s..expectedBlockNumber s1 - 1]
                  @ [expectedBlockNumber s1..expectedBlockNumber s' - 1]"
        by (simp only: eq2 eq1 append_assoc)
      also have "[expectedBlockNumber s..expectedBlockNumber s1 - 1]
                  @ [expectedBlockNumber s1..expectedBlockNumber s' - 1]
                   = [expectedBlockNumber s..expectedBlockNumber s' - 1]"
        using le1 le2 by (rule upto_join)
      finally show ?thesis using le1 le2 by simp
    qed
  qed
qed

lemma readBlocksLoop_announcedAt:
  "expectedBlockNumber s \<le> expectedBlockNumber (readBlocksLoop e s)
   \<and> announcedAt (trace (readBlocksLoop e s))
       = announcedAt (trace s) @ [expectedBlockNumber s..expectedBlockNumber (readBlocksLoop e s) - 1]"
proof (cases e s rule: readBlocksLoop_cases)
  case (height_fails err)
  then show ?thesis by (simp add: logAction_fields announcedAt_append)
next
  case (completes h buf s1 seen)
  from fetchLoop_announcedAt[OF completes(2)] completes(3) show ?thesis by simp
next
  case (fails h err buf s1 seen)
  from fetchLoop_announcedAt[OF fails(2)] fails(3) show ?thesis
    by (simp add: logAction_fields announcedAt_append)
qed

lemma readBlocksLoops_announcedAt:
  "expectedBlockNumber s \<le> expectedBlockNumber (readBlocksLoops es s)
   \<and> announcedAt (trace (readBlocksLoops es s))
       = announcedAt (trace s) @ [expectedBlockNumber s..expectedBlockNumber (readBlocksLoops es s) - 1]"
proof (induction es arbitrary: s)
  case Nil
  show ?case by simp
next
  case (Cons e es)
  let ?s1 = "readBlocksLoop e s"
  let ?s2 = "readBlocksLoops es ?s1"
  from readBlocksLoop_announcedAt[of s e]
  have le1: "expectedBlockNumber s \<le> expectedBlockNumber ?s1"
    and eq1: "announcedAt (trace ?s1)
                = announcedAt (trace s) @ [expectedBlockNumber s..expectedBlockNumber ?s1 - 1]"
    by blast+
  from Cons.IH[of ?s1]
  have le2: "expectedBlockNumber ?s1 \<le> expectedBlockNumber ?s2"
    and eq2: "announcedAt (trace ?s2)
                = announcedAt (trace ?s1) @ [expectedBlockNumber ?s1..expectedBlockNumber ?s2 - 1]"
    by blast+
  have "announcedAt (trace ?s2)
          = announcedAt (trace s)
              @ [expectedBlockNumber s..expectedBlockNumber ?s1 - 1]
              @ [expectedBlockNumber ?s1..expectedBlockNumber ?s2 - 1]"
    by (simp only: eq2 eq1 append_assoc)
  also have "[expectedBlockNumber s..expectedBlockNumber ?s1 - 1]
              @ [expectedBlockNumber ?s1..expectedBlockNumber ?s2 - 1]
               = [expectedBlockNumber s..expectedBlockNumber ?s2 - 1]"
    using le1 le2 by (rule upto_join)
  finally show ?case using le1 le2 by simp
qed

lemma start_announcedAt:
  "announcedAt (trace (start e es (newReader file)))
     = [expectedBlockNumber (startCursor e (newReader file))
          ..expectedBlockNumber (start e es (newReader file)) - 1]"
proof -
  have "announcedAt (trace (startCursor e (newReader file))) = []"
    using startCursor_no_announcement by (rule announcedAt_none)
  with readBlocksLoops_announcedAt[of "startCursor e (newReader file)" es]
  show ?thesis by (simp add: start_def)
qed

lemma start_announcedNumbers:
  assumes "\<forall>e' \<in> set es. answersAsked e'"
  shows "announcedNumbers (trace (start e es (newReader file)))
           = [expectedBlockNumber (startCursor e (newReader file))
                ..expectedBlockNumber (start e es (newReader file)) - 1]"
  using announcedNumbers_byNumber[OF start_byNumber[OF assms]] start_announcedAt by simp

section \<open>Start-up: where the cursor resumes\<close>

lemma startCursor_near:
  assumes "blockNumber_resp e = Inr H" and "lastBlockFile s = Content (Some C)"
    and "C \<noteq> 0" and "H - C \<le> rereadBlocks"
  shows "startCursor e s = s\<lparr>expectedBlockNumber := C + 1\<rparr>"
  using assms by (simp add: startCursor_def loadLastProcessedBlock_def)

lemma startCursor_far:
  assumes "blockNumber_resp e = Inr H" and "lastBlockFile s = Content parsed"
    and "H - (case parsed of Some n \<Rightarrow> n | None \<Rightarrow> 0) > rereadBlocks
         \<or> (case parsed of Some n \<Rightarrow> n | None \<Rightarrow> 0) = 0"
    and w: "writeFile_ok e (H - rereadBlocks)"
  shows "startCursor e s =
           s\<lparr>expectedBlockNumber := H - rereadBlocks + 1,
             lastBlockFile := Content (Some (H - rereadBlocks)),
             trace := trace s @ [(expectedBlockNumber s, Content (Some (H - rereadBlocks)),
                                  Persisted (H - rereadBlocks))]\<rparr>"
  using assms(1-3)
  by (auto simp: startCursor_def loadLastProcessedBlock_def Let_def saveLastProcessedBlock_ok[OF w])

lemma startCursor_missing:
  assumes "blockNumber_resp e = Inr H" and "lastBlockFile s = Missing"
    and w: "writeFile_ok e H"
  shows "startCursor e s =
           s\<lparr>expectedBlockNumber := H + 1,
             lastBlockFile := Content (Some H),
             trace := trace s @ [(expectedBlockNumber s, Content (Some H), Persisted H)]\<rparr>"
  using assms(1-2)
  by (simp add: startCursor_def loadLastProcessedBlock_def saveLastProcessedBlock_ok[OF w])

text \<open>
  C4, as the code has it. A newly constructed reader starts on a checkpoint file while
  the height query answers \<open>H\<close>.

  \<^item> The file holds \<open>C\<close>, \<open>C\<close> is not 0 and \<open>H - C\<close> is at most the replay window: the
    cursor becomes \<open>C + 1\<close>, nothing is written and nothing is emitted, and the
    announcements the loop then makes are made at the cursor values \<open>C + 1\<close>, \<open>C + 2\<close>,
    and so on, in that order and without a gap (so block \<open>C\<close> is not announced again);
    the announced blocks carry these very numbers when the provider answers each request
    with the block asked for.

  \<^item> The file holds \<open>C\<close> and \<open>H - C\<close> exceeds the window or \<open>C\<close> is 0, or the content of
    the file is not a number (which reads as 0): when the write succeeds, the checkpoint
    \<open>H - window\<close> is written, the cursor becomes \<open>H - window + 1\<close>, nothing else is
    emitted (no error event), and the announcements the loop then makes are made at
    \<open>H - window + 1\<close>, \<open>H - window + 2\<close>, and so on.

  \<^item> The file is missing or unreadable: when the write succeeds, the checkpoint \<open>H\<close> is
    written, the cursor becomes \<open>H + 1\<close>, and the announcements the loop then makes are
    made at \<open>H + 1\<close>, \<open>H + 2\<close>, and so on.
\<close>

theorem startCursor_resume:
  "blockNumber_resp e = Inr H \<longrightarrow>
     (C \<noteq> 0 \<and> H - C \<le> rereadBlocks \<longrightarrow>
          startCursor e (newReader (Content (Some C)))
            = (newReader (Content (Some C)))\<lparr>expectedBlockNumber := C + 1\<rparr>
        \<and> announcedAt (trace (start e es (newReader (Content (Some C)))))
            = [C + 1..expectedBlockNumber (start e es (newReader (Content (Some C)))) - 1]
        \<and> ((\<forall>e' \<in> set es. answersAsked e') \<longrightarrow>
              announcedNumbers (trace (start e es (newReader (Content (Some C)))))
                = [C + 1..expectedBlockNumber (start e es (newReader (Content (Some C)))) - 1]))
   \<and> ((H - C > rereadBlocks \<or> C = 0) \<and> writeFile_ok e (H - rereadBlocks) \<longrightarrow>
          expectedBlockNumber (startCursor e (newReader (Content (Some C)))) = H - rereadBlocks + 1
        \<and> lastBlockFile (startCursor e (newReader (Content (Some C))))
            = Content (Some (H - rereadBlocks))
        \<and> trace (startCursor e (newReader (Content (Some C))))
            = [(0, Content (Some (H - rereadBlocks)), Persisted (H - rereadBlocks))]
        \<and> announcedAt (trace (start e es (newReader (Content (Some C)))))
            = [H - rereadBlocks + 1
                 ..expectedBlockNumber (start e es (newReader (Content (Some C)))) - 1])
   \<and> (writeFile_ok e (H - rereadBlocks) \<longrightarrow>
          expectedBlockNumber (startCursor e (newReader (Content None))) = H - rereadBlocks + 1
        \<and> lastBlockFile (startCursor e (newReader (Content None)))
            = Content (Some (H - rereadBlocks))
        \<and> trace (startCursor e (newReader (Content None)))
            = [(0, Content (Some (H - rereadBlocks)), Persisted (H - rereadBlocks))]
        \<and> announcedAt (trace (start e es (newReader (Content None))))
            = [H - rereadBlocks + 1
                 ..expectedBlockNumber (start e es (newReader (Content None))) - 1])
   \<and> (writeFile_ok e H \<longrightarrow>
          expectedBlockNumber (startCursor e (newReader Missing)) = H + 1
        \<and> lastBlockFile (startCursor e (newReader Missing)) = Content (Some H)
        \<and> trace (startCursor e (newReader Missing)) = [(0, Content (Some H), Persisted H)]
        \<and> announcedAt (trace (start e es (newReader Missing)))
            = [H + 1..expectedBlockNumber (start e es (newReader Missing)) - 1])"
proof (rule impI)
  assume h: "blockNumber_resp e = Inr H"
  let ?s = "newReader (Content (Some C))"
  have near: "C \<noteq> 0 \<and> H - C \<le> rereadBlocks \<longrightarrow>
          startCursor e ?s = ?s\<lparr>expectedBlockNumber := C + 1\<rparr>
        \<and> announcedAt (trace (start e es ?s)) = [C + 1..expectedBlockNumber (start e es ?s) - 1]
        \<and> ((\<forall>e' \<in> set es. answersAsked e') \<longrightarrow>
              announcedNumbers (trace (start e es ?s))
                = [C + 1..expectedBlockNumber (start e es ?s) - 1])"
  proof
    assume "C \<noteq> 0 \<and> H - C \<le> rereadBlocks"
    then have sc: "startCursor e ?s = ?s\<lparr>expectedBlockNumber := C + 1\<rparr>"
      using startCursor_near[OF h, of ?s C] by (simp add: newReader_fields)
    then have c: "expectedBlockNumber (startCursor e ?s) = C + 1" by simp
    from start_announcedAt[of e es "Content (Some C)"]
    have a: "announcedAt (trace (start e es ?s)) = [C + 1..expectedBlockNumber (start e es ?s) - 1]"
      by (simp only: c)
    have n: "(\<forall>e' \<in> set es. answersAsked e') \<longrightarrow>
              announcedNumbers (trace (start e es ?s))
                = [C + 1..expectedBlockNumber (start e es ?s) - 1]"
    proof
      assume "\<forall>e' \<in> set es. answersAsked e'"
      from start_announcedNumbers[OF this, of e "Content (Some C)"]
      show "announcedNumbers (trace (start e es ?s))
              = [C + 1..expectedBlockNumber (start e es ?s) - 1]"
        by (simp only: c)
    qed
    from sc a n show "startCursor e ?s = ?s\<lparr>expectedBlockNumber := C + 1\<rparr>
        \<and> announcedAt (trace (start e es ?s)) = [C + 1..expectedBlockNumber (start e es ?s) - 1]
        \<and> ((\<forall>e' \<in> set es. answersAsked e') \<longrightarrow>
              announcedNumbers (trace (start e es ?s))
                = [C + 1..expectedBlockNumber (start e es ?s) - 1])"
      by blast
  qed
  have far: "(H - C > rereadBlocks \<or> C = 0) \<and> writeFile_ok e (H - rereadBlocks) \<longrightarrow>
          expectedBlockNumber (startCursor e ?s) = H - rereadBlocks + 1
        \<and> lastBlockFile (startCursor e ?s) = Content (Some (H - rereadBlocks))
        \<and> trace (startCursor e ?s)
            = [(0, Content (Some (H - rereadBlocks)), Persisted (H - rereadBlocks))]
        \<and> announcedAt (trace (start e es ?s))
            = [H - rereadBlocks + 1..expectedBlockNumber (start e es ?s) - 1]"
  proof
    assume a: "(H - C > rereadBlocks \<or> C = 0) \<and> writeFile_ok e (H - rereadBlocks)"
    then have w: "writeFile_ok e (H - rereadBlocks)" by simp
    from a have "H - (case Some C of Some n \<Rightarrow> n | None \<Rightarrow> 0) > rereadBlocks
         \<or> (case Some C of Some n \<Rightarrow> n | None \<Rightarrow> 0) = 0"
      by simp
    from startCursor_far[OF h _ this w, of ?s]
    have sc: "startCursor e ?s =
           ?s\<lparr>expectedBlockNumber := H - rereadBlocks + 1,
              lastBlockFile := Content (Some (H - rereadBlocks)),
              trace := trace ?s @ [(expectedBlockNumber ?s, Content (Some (H - rereadBlocks)),
                                   Persisted (H - rereadBlocks))]\<rparr>"
      by (simp add: newReader_fields)
    then have c: "expectedBlockNumber (startCursor e ?s) = H - rereadBlocks + 1" by simp
    from start_announcedAt[of e es "Content (Some C)"]
    have "announcedAt (trace (start e es ?s))
            = [H - rereadBlocks + 1..expectedBlockNumber (start e es ?s) - 1]"
      by (simp only: c)
    with sc show "expectedBlockNumber (startCursor e ?s) = H - rereadBlocks + 1
        \<and> lastBlockFile (startCursor e ?s) = Content (Some (H - rereadBlocks))
        \<and> trace (startCursor e ?s)
            = [(0, Content (Some (H - rereadBlocks)), Persisted (H - rereadBlocks))]
        \<and> announcedAt (trace (start e es ?s))
            = [H - rereadBlocks + 1..expectedBlockNumber (start e es ?s) - 1]"
      by (simp add: newReader_fields)
  qed
  have unparsable: "writeFile_ok e (H - rereadBlocks) \<longrightarrow>
          expectedBlockNumber (startCursor e (newReader (Content None))) = H - rereadBlocks + 1
        \<and> lastBlockFile (startCursor e (newReader (Content None)))
            = Content (Some (H - rereadBlocks))
        \<and> trace (startCursor e (newReader (Content None)))
            = [(0, Content (Some (H - rereadBlocks)), Persisted (H - rereadBlocks))]
        \<and> announcedAt (trace (start e es (newReader (Content None))))
            = [H - rereadBlocks + 1
                 ..expectedBlockNumber (start e es (newReader (Content None))) - 1]"
  proof
    assume w: "writeFile_ok e (H - rereadBlocks)"
    have "H - (case None of Some n \<Rightarrow> n | None \<Rightarrow> 0) > rereadBlocks
         \<or> (case None of Some n \<Rightarrow> n | None \<Rightarrow> (0::int)) = 0"
      by simp
    from startCursor_far[OF h _ this w, of "newReader (Content None)"]
    have sc: "startCursor e (newReader (Content None)) =
           (newReader (Content None))
             \<lparr>expectedBlockNumber := H - rereadBlocks + 1,
              lastBlockFile := Content (Some (H - rereadBlocks)),
              trace := trace (newReader (Content None))
                         @ [(expectedBlockNumber (newReader (Content None)),
                             Content (Some (H - rereadBlocks)), Persisted (H - rereadBlocks))]\<rparr>"
      by (simp add: newReader_fields)
    then have c: "expectedBlockNumber (startCursor e (newReader (Content None)))
                    = H - rereadBlocks + 1"
      by simp
    from start_announcedAt[of e es "Content None"]
    have "announcedAt (trace (start e es (newReader (Content None))))
            = [H - rereadBlocks + 1
                 ..expectedBlockNumber (start e es (newReader (Content None))) - 1]"
      by (simp only: c)
    with sc show "expectedBlockNumber (startCursor e (newReader (Content None))) = H - rereadBlocks + 1
        \<and> lastBlockFile (startCursor e (newReader (Content None)))
            = Content (Some (H - rereadBlocks))
        \<and> trace (startCursor e (newReader (Content None)))
            = [(0, Content (Some (H - rereadBlocks)), Persisted (H - rereadBlocks))]
        \<and> announcedAt (trace (start e es (newReader (Content None))))
            = [H - rereadBlocks + 1
                 ..expectedBlockNumber (start e es (newReader (Content None))) - 1]"
      by (simp add: newReader_fields)
  qed
  have missing: "writeFile_ok e H \<longrightarrow>
          expectedBlockNumber (startCursor e (newReader Missing)) = H + 1
        \<and> lastBlockFile (startCursor e (newReader Missing)) = Content (Some H)
        \<and> trace (startCursor e (newReader Missing)) = [(0, Content (Some H), Persisted H)]
        \<and> announcedAt (trace (start e es (newReader Missing)))
            = [H + 1..expectedBlockNumber (start e es (newReader Missing)) - 1]"
  proof
    assume w: "writeFile_ok e H"
    from startCursor_missing[OF h _ w, of "newReader Missing"]
    have sc: "startCursor e (newReader Missing) =
           (newReader Missing)
             \<lparr>expectedBlockNumber := H + 1,
              lastBlockFile := Content (Some H),
              trace := trace (newReader Missing)
                         @ [(expectedBlockNumber (newReader Missing), Content (Some H),
                             Persisted H)]\<rparr>"
      by (simp add: newReader_fields)
    then have c: "expectedBlockNumber (startCursor e (newReader Missing)) = H + 1" by simp
    from start_announcedAt[of e es Missing]
    have "announcedAt (trace (start e es (newReader Missing)))
            = [H + 1..expectedBlockNumber (start e es (newReader Missing)) - 1]"
      by (simp only: c)
    with sc show "expectedBlockNumber (startCursor e (newReader Missing)) = H + 1
        \<and> lastBlockFile (startCursor e (newReader Missing)) = Content (Some H)
        \<and> trace (startCursor e (newReader Missing)) = [(0, Content (Some H), Persisted H)]
        \<and> announcedAt (trace (start e es (newReader Missing)))
            = [H + 1..expectedBlockNumber (start e es (newReader Missing)) - 1]"
      by (simp add: newReader_fields)
  qed
  from near far unparsable missing
  show "(C \<noteq> 0 \<and> H - C \<le> rereadBlocks \<longrightarrow>
          startCursor e ?s = ?s\<lparr>expectedBlockNumber := C + 1\<rparr>
        \<and> announcedAt (trace (start e es ?s)) = [C + 1..expectedBlockNumber (start e es ?s) - 1]
        \<and> ((\<forall>e' \<in> set es. answersAsked e') \<longrightarrow>
              announcedNumbers (trace (start e es ?s))
                = [C + 1..expectedBlockNumber (start e es ?s) - 1]))
   \<and> ((H - C > rereadBlocks \<or> C = 0) \<and> writeFile_ok e (H - rereadBlocks) \<longrightarrow>
          expectedBlockNumber (startCursor e ?s) = H - rereadBlocks + 1
        \<and> lastBlockFile (startCursor e ?s) = Content (Some (H - rereadBlocks))
        \<and> trace (startCursor e ?s)
            = [(0, Content (Some (H - rereadBlocks)), Persisted (H - rereadBlocks))]
        \<and> announcedAt (trace (start e es ?s))
            = [H - rereadBlocks + 1..expectedBlockNumber (start e es ?s) - 1])
   \<and> (writeFile_ok e (H - rereadBlocks) \<longrightarrow>
          expectedBlockNumber (startCursor e (newReader (Content None))) = H - rereadBlocks + 1
        \<and> lastBlockFile (startCursor e (newReader (Content None)))
            = Content (Some (H - rereadBlocks))
        \<and> trace (startCursor e (newReader (Content None)))
            = [(0, Content (Some (H - rereadBlocks)), Persisted (H - rereadBlocks))]
        \<and> announcedAt (trace (start e es (newReader (Content None))))
            = [H - rereadBlocks + 1
                 ..expectedBlockNumber (start e es (newReader (Content None))) - 1])
   \<and> (writeFile_ok e H \<longrightarrow>
          expectedBlockNumber (startCursor e (newReader Missing)) = H + 1
        \<and> lastBlockFile (startCursor e (newReader Missing)) = Content (Some H)
        \<and> trace (startCursor e (newReader Missing)) = [(0, Content (Some H), Persisted H)]
        \<and> announcedAt (trace (start e es (newReader Missing)))
            = [H + 1..expectedBlockNumber (start e es (newReader Missing)) - 1])"
    by (rule conjI[OF _ conjI[OF _ conjI]])
qed

theorem startCursor_resume_witness:
  "startCursor (healthyEnv 812003) (newReader (Content (Some 812000)))
     = (newReader (Content (Some 812000)))\<lparr>expectedBlockNumber := 812001\<rparr>
   \<and> answersAsked (healthyEnv 812003)
   \<and> announcedNumbers
       (trace (start (healthyEnv 812003) [healthyEnv 812003] (newReader (Content (Some 812000)))))
       = [812001, 812002, 812003]
   \<and> expectedBlockNumber (startCursor (healthyEnv 812050) (newReader (Content (Some 812000))))
        = 812041
   \<and> lastBlockFile (startCursor (healthyEnv 812050) (newReader (Content (Some 812000))))
        = Content (Some 812040)
   \<and> trace (startCursor (healthyEnv 812050) (newReader (Content (Some 812000))))
        = [(0, Content (Some 812040), Persisted 812040)]
   \<and> expectedBlockNumber (startCursor (healthyEnv 812050) (newReader (Content None))) = 812041
   \<and> expectedBlockNumber (startCursor (healthyEnv 812050) (newReader Missing)) = 812051"
proof -
  let ?s = "newReader (Content (Some 812000))"
  let ?near = "healthyEnv 812003"
  let ?far = "healthyEnv 812050"
  have asked: "answersAsked ?near"
    by (simp add: answersAsked_def healthyEnv_def exampleBlock_def)
  have c1: "(812000::int) \<noteq> 0 \<and> 812003 - 812000 \<le> rereadBlocks"
    by (simp add: rereadBlocks_def)
  have c2: "(812050 - 812000 > rereadBlocks \<or> (812000::int) = 0)
            \<and> writeFile_ok ?far (812050 - rereadBlocks)"
    by (simp add: rereadBlocks_def healthyEnv_fields)
  have w2: "writeFile_ok ?far (812050 - rereadBlocks)" "writeFile_ok ?far 812050"
    by (simp_all add: healthyEnv_fields)
  note near = startCursor_resume[of ?near 812003 812000 "[?near]", rule_format,
                OF healthyEnv_fields(1)]
  note far = startCursor_resume[of ?far 812050 812000 "[]", rule_format,
                OF healthyEnv_fields(1)]
  from near c1 have r1: "startCursor ?near ?s = ?s\<lparr>expectedBlockNumber := 812000 + 1\<rparr>"
    by blast
  from near c1 asked have "announcedNumbers (trace (start ?near [?near] ?s))
          = [812000 + 1..expectedBlockNumber (start ?near [?near] ?s) - 1]"
    by simp
  moreover have "expectedBlockNumber (start ?near [?near] ?s) = 812004"
    by code_simp
  ultimately
  have r2: "announcedNumbers (trace (start ?near [?near] ?s)) = [812001, 812002, 812003]"
    by (simp add: upto_rec_numeral)
  from far c2 have r3: "expectedBlockNumber (startCursor ?far ?s) = 812050 - rereadBlocks + 1
      \<and> lastBlockFile (startCursor ?far ?s) = Content (Some (812050 - rereadBlocks))
      \<and> trace (startCursor ?far ?s)
          = [(0, Content (Some (812050 - rereadBlocks)), Persisted (812050 - rereadBlocks))]"
    by blast
  from far w2(1)
  have r4: "expectedBlockNumber (startCursor ?far (newReader (Content None)))
              = 812050 - rereadBlocks + 1"
    by blast
  from far w2(2)
  have r5: "expectedBlockNumber (startCursor ?far (newReader Missing)) = 812050 + 1"
    by blast
  from r1 asked r2 r3 r4 r5 show ?thesis
    by (simp add: rereadBlocks_def)
qed

text \<open>
  The claim as stated fails for a checkpoint of 0: with \<open>H = 5\<close> the distance
  \<open>H - C\<close> is within the window, yet the cursor does not resume at \<open>C + 1 = 1\<close> but
  at \<open>H - window + 1 = -4\<close>.
\<close>

theorem startCursor_zero_counterexample:
  "(5::int) - 0 \<le> rereadBlocks
   \<and> expectedBlockNumber (startCursor (healthyEnv 5) (newReader (Content (Some 0)))) = - 4
   \<and> expectedBlockNumber (startCursor (healthyEnv 5) (newReader (Content (Some 0)))) \<noteq> 0 + 1"
  by (simp add: startCursor_def loadLastProcessedBlock_def rereadBlocks_def healthyEnv_def
                newReader_def saveLastProcessedBlock_def logAction_def)

section \<open>The pending buffer\<close>

lemma fetchBatch_keys:
  "fst ` set (fetchBatch e buf ns) \<subseteq> fst ` set buf \<union> set ns"
proof (induction ns arbitrary: buf)
  case Nil
  show ?case by (simp add: fetchBatch_def)
next
  case (Cons n ns)
  let ?buf1 = "case fst (tryGetBlock (getBlock_resp e n) maxAttempts) of
                 Some blk \<Rightarrow> AList.update n blk buf | None \<Rightarrow> buf"
  have one: "fst ` set ?buf1 \<subseteq> fst ` set buf \<union> {n}"
    by (cases "fst (tryGetBlock (getBlock_resp e n) maxAttempts)") (auto simp: dom_update)
  have "fetchBatch e buf (n # ns) = fetchBatch e ?buf1 ns"
    by (simp add: fetchBatch_def)
  with Cons.IH[of ?buf1] one show ?case by auto
qed

lemma fetchBatch_distinct:
  assumes "distinct (map fst buf)"
  shows "distinct (map fst (fetchBatch e buf ns))"
  using assms
proof (induction ns arbitrary: buf)
  case Nil
  then show ?case by (simp add: fetchBatch_def)
next
  case (Cons n ns)
  let ?buf1 = "case fst (tryGetBlock (getBlock_resp e n) maxAttempts) of
                 Some blk \<Rightarrow> AList.update n blk buf | None \<Rightarrow> buf"
  have one: "distinct (map fst ?buf1)"
    using Cons.prems
    by (cases "fst (tryGetBlock (getBlock_resp e n) maxAttempts)") (auto simp: distinct_update)
  have "fetchBatch e buf (n # ns) = fetchBatch e ?buf1 ns"
    by (simp add: fetchBatch_def)
  with Cons.IH[OF one] show ?case by simp
qed

lemma fetchBatch_within:
  assumes "bufferWithin lo hi buf" and "lo \<le> a" and "b \<le> hi"
  shows "bufferWithin lo hi (fetchBatch e buf [a..b])"
  unfolding bufferWithin_def
proof (intro conjI ballI)
  from assms(1) show "distinct (map fst (fetchBatch e buf [a..b]))"
    by (simp add: bufferWithin_def fetchBatch_distinct)
next
  fix k assume "k \<in> fst ` set (fetchBatch e buf [a..b])"
  with fetchBatch_keys[of e buf "[a..b]"] have "k \<in> fst ` set buf \<union> {a..b}"
    by auto
  then have k: "lo \<le> k \<and> k \<le> hi"
  proof
    assume "k \<in> fst ` set buf"
    with assms(1) show ?thesis unfolding bufferWithin_def by blast
  next
    assume "k \<in> {a..b}"
    with assms(2,3) show ?thesis by simp
  qed
  from k show "lo \<le> k" ..
  from k show "k \<le> hi" ..
qed

lemma set_delete: "set (AList.delete k buf) = {x \<in> set buf. fst x \<noteq> k}"
  by (auto simp: AList.delete_eq)

lemma bufferWithin_subset:
  assumes "bufferWithin lo hi buf" and "set buf' \<subseteq> set buf" and "distinct (map fst buf')"
  shows "bufferWithin lo hi buf'"
  using assms unfolding bufferWithin_def by auto

lemma drain_removes:
  assumes "drain e buf s = (r, buf', s')"
  shows "expectedBlockNumber s \<le> expectedBlockNumber s'
       \<and> set buf' \<subseteq> set buf
       \<and> (distinct (map fst buf) \<longrightarrow> distinct (map fst buf'))
       \<and> (\<forall>x \<in> set buf - set buf'.
             expectedBlockNumber s \<le> fst x \<and> fst x \<le> expectedBlockNumber s')"
  using assms
proof (induction e buf s arbitrary: r buf' s' rule: drain.induct)
  case (1 e buf s)
  show ?case
  proof (cases "map_of buf (expectedBlockNumber s)")
    case None
    from "1.prems" drain_None[OF None, of e] have "s' = s" "buf' = buf" by simp_all
    then show ?thesis by simp
  next
    case (Some blk)
    obtain d s1 where pb: "processBlock e s blk = (d, s1)" by (cases "processBlock e s blk")
    note c1 = processBlock_fields(1)[OF pb]
    let ?del = "AList.delete (expectedBlockNumber s) buf"
    have dd: "distinct (map fst buf) \<longrightarrow> distinct (map fst ?del)"
      by (simp add: distinct_delete)
    show ?thesis
    proof (cases "saveLastProcessedBlock e s1 (expectedBlockNumber s1)")
      case (Inl err)
      from "1.prems" drain_fail[OF Some pb Inl] have "s' = s1" "buf' = ?del" by simp_all
      with c1 dd show ?thesis by (auto simp: set_delete)
    next
      case (Inr s2)
      let ?next = "(logAction (NewBlock d) s2)\<lparr>expectedBlockNumber := expectedBlockNumber s2 + 1\<rparr>"
      note c2 = saveLastProcessedBlock_Inr(2)[OF Inr]
      have cn: "expectedBlockNumber ?next = expectedBlockNumber s + 1"
        by (simp add: c1 c2 logAction_fields)
      have rec: "drain e ?del ?next = (r, buf', s')"
        using "1.prems" drain_step[OF Some pb Inr] by simp
      from "1.IH"[OF Some refl pb[symmetric] Inr rec]
      have ih: "expectedBlockNumber ?next \<le> expectedBlockNumber s'"
        "set buf' \<subseteq> set ?del"
        "distinct (map fst ?del) \<longrightarrow> distinct (map fst buf')"
        "\<forall>x \<in> set ?del - set buf'.
             expectedBlockNumber ?next \<le> fst x \<and> fst x \<le> expectedBlockNumber s'"
        by blast+
      have mono: "expectedBlockNumber s \<le> expectedBlockNumber s'"
        using ih(1) cn by simp
      have sub: "set buf' \<subseteq> set buf"
        using ih(2) by (auto simp: set_delete)
      have removed: "\<forall>x \<in> set buf - set buf'.
             expectedBlockNumber s \<le> fst x \<and> fst x \<le> expectedBlockNumber s'"
      proof
        fix x assume x: "x \<in> set buf - set buf'"
        show "expectedBlockNumber s \<le> fst x \<and> fst x \<le> expectedBlockNumber s'"
        proof (cases "fst x = expectedBlockNumber s")
          case True
          with mono show ?thesis by simp
        next
          case False
          with x have "x \<in> set ?del - set buf'" by (simp add: set_delete)
          with ih(4) have "expectedBlockNumber ?next \<le> fst x \<and> fst x \<le> expectedBlockNumber s'"
            by blast
          then have "expectedBlockNumber s + 1 \<le> fst x \<and> fst x \<le> expectedBlockNumber s'"
            by (simp only: cn)
          then show ?thesis by simp
        qed
      qed
      from mono sub dd ih(3) removed show ?thesis by blast
    qed
  qed
qed

lemma fetchLoop_within:
  assumes "lo \<le> nextBlock" and "bufferWithin lo head buf"
    and "\<forall>b \<in> set seen. bufferWithin lo head b"
    and "fetchLoop e head nextBlock buf s seen = (r, buf', s', seen')"
  shows "bufferWithin lo head buf' \<and> (\<forall>b \<in> set seen'. bufferWithin lo head b)"
  using assms
proof (induction e head nextBlock buf s seen arbitrary: r buf' s' seen' rule: fetchLoop.induct)
  case (1 e head nextBlock buf s seen)
  show ?case
  proof (cases "nextBlock \<le> head")
    case False
    from "1.prems"(4) fetchLoop_done[OF False, of e buf s seen]
    have "buf' = buf" "seen' = seen" by simp_all
    with "1.prems"(2,3) show ?thesis by simp
  next
    case True
    let ?last = "min head (nextBlock + maxParallelBlocks - 1)"
    let ?buf1 = "fetchBatch e buf [nextBlock..?last]"
    obtain r1 buf2 s1 where dr: "drain e ?buf1 s = (r1, buf2, s1)"
      by (cases "drain e ?buf1 s") auto
    have w1: "bufferWithin lo head ?buf1"
      using "1.prems"(1,2) by (intro fetchBatch_within) simp_all
    from drain_removes[OF dr] w1 have w2: "bufferWithin lo head buf2"
      by (intro bufferWithin_subset[OF w1]) (auto simp: bufferWithin_def)
    have seen1: "\<forall>b \<in> set (seen @ [?buf1]). bufferWithin lo head b"
      using "1.prems"(3) w1 by simp
    show ?thesis
    proof (cases r1)
      case (Some err)
      from "1.prems"(4) fetchLoop_fail[OF True dr[unfolded Some], of seen]
      have "buf' = buf2" "seen' = seen @ [?buf1]" by simp_all
      with w2 seen1 show ?thesis by simp
    next
      case None
      have rec: "fetchLoop e head (?last + 1) buf2 s1 (seen @ [?buf1]) = (r, buf', s', seen')"
        using "1.prems"(4) fetchLoop_step[OF True dr[unfolded None], of seen] by simp
      have lo': "lo \<le> ?last + 1"
        using "1.prems"(1) True by (simp add: maxParallelBlocks_def)
      show ?thesis
        using "1.IH"[OF True refl refl dr[symmetric] None refl lo' w2 seen1 rec] .
    qed
  qed
qed

lemma bufferWithin_length:
  assumes "bufferWithin lo hi buf" and "lo \<le> hi"
  shows "int (length buf) \<le> hi - lo + 1"
proof -
  from assms(1) have d: "distinct (map fst buf)" and sub: "set (map fst buf) \<subseteq> {lo..hi}"
    by (auto simp: bufferWithin_def)
  have "length buf = card (set (map fst buf))"
    using distinct_card[OF d] by simp
  also have "\<dots> \<le> card {lo..hi}"
    using sub by (intro card_mono) simp_all
  also have "\<dots> = nat (hi - lo + 1)" by simp
  finally show ?thesis using assms(2) by simp
qed

lemma readBlocksRun_within:
  assumes "blockNumber_resp e = Inr h" and "readBlocksRun e s = (s', buf, seen)"
  shows "\<forall>b \<in> set (buf # seen).
           bufferWithin (expectedBlockNumber s) (max h (expectedBlockNumber s)) b"
proof -
  let ?c = "expectedBlockNumber s"
  let ?head = "if h < ?c then ?c else h"
  have hd: "?head = max h ?c" by simp
  obtain r buf1 s1 seen1 where fl: "fetchLoop e ?head ?c [] s [] = (r, buf1, s1, seen1)"
    by (cases "fetchLoop e ?head ?c [] s []") auto
  have empty: "bufferWithin ?c ?head []" by (simp add: bufferWithin_def)
  from fetchLoop_within[OF _ empty _ fl, of ] 
  have w: "bufferWithin ?c ?head buf1 \<and> (\<forall>b \<in> set seen1. bufferWithin ?c ?head b)"
    by simp
  from assms fl have "buf = buf1 \<and> seen = seen1"
    by (cases r) (simp_all add: readBlocksRun_def Let_def)
  with w show ?thesis unfolding hd by simp
qed

text \<open>
  C9, as the code has it. During one run of the loop at height \<open>h\<close> from cursor \<open>c\<close>, the
  pending buffer, each time a batch has settled and at the end of the run, has distinct
  keys that all lie between \<open>c\<close> and \<open>max h c\<close>, so it holds at most
  \<open>max h c - c + 1\<close> entries: the number of blocks the run asks for, not the batch size.
  The drain only removes entries: every entry it removes has a key between the cursor
  before the drain and the cursor after it.
\<close>

theorem pending_buffer_bound:
  "(blockNumber_resp e = Inr h \<and> readBlocksRun e s = (s', buf, seen) \<longrightarrow>
      (\<forall>b \<in> set (buf # seen).
          distinct (map fst b)
        \<and> (\<forall>k \<in> fst ` set b. expectedBlockNumber s \<le> k \<and> k \<le> max h (expectedBlockNumber s))
        \<and> int (length b) \<le> max h (expectedBlockNumber s) - expectedBlockNumber s + 1))
   \<and> (drain e buf0 s0 = (r, buf1, s1) \<longrightarrow>
        set buf1 \<subseteq> set buf0
      \<and> (\<forall>x \<in> set buf0 - set buf1.
            expectedBlockNumber s0 \<le> fst x \<and> fst x \<le> expectedBlockNumber s1))"
proof -
  have run: "blockNumber_resp e = Inr h \<and> readBlocksRun e s = (s', buf, seen) \<longrightarrow>
      (\<forall>b \<in> set (buf # seen).
          distinct (map fst b)
        \<and> (\<forall>k \<in> fst ` set b. expectedBlockNumber s \<le> k \<and> k \<le> max h (expectedBlockNumber s))
        \<and> int (length b) \<le> max h (expectedBlockNumber s) - expectedBlockNumber s + 1)"
  proof (rule impI, rule ballI)
    fix b
    assume a: "blockNumber_resp e = Inr h \<and> readBlocksRun e s = (s', buf, seen)"
      and b: "b \<in> set (buf # seen)"
    from a readBlocksRun_within[of e h s s' buf seen] b
    have w: "bufferWithin (expectedBlockNumber s) (max h (expectedBlockNumber s)) b" by blast
    have "int (length b) \<le> max h (expectedBlockNumber s) - expectedBlockNumber s + 1"
      using bufferWithin_length[OF w] by simp
    with w show "distinct (map fst b)
        \<and> (\<forall>k \<in> fst ` set b. expectedBlockNumber s \<le> k \<and> k \<le> max h (expectedBlockNumber s))
        \<and> int (length b) \<le> max h (expectedBlockNumber s) - expectedBlockNumber s + 1"
      unfolding bufferWithin_def by blast
  qed
  have dr: "drain e buf0 s0 = (r, buf1, s1) \<longrightarrow>
        set buf1 \<subseteq> set buf0
      \<and> (\<forall>x \<in> set buf0 - set buf1.
            expectedBlockNumber s0 \<le> fst x \<and> fst x \<le> expectedBlockNumber s1)"
    using drain_removes[of e buf0 s0 r buf1 s1] by blast
  from run dr show ?thesis by (rule conjI)
qed

lemma example_stuck_buffer:
  "map fst (fst (snd (readBlocksRun (stuckEnv 10) (readerAt 1)))) = [2, 3, 4, 5, 6, 7, 8, 9, 10]"
  by code_simp

theorem pending_buffer_bound_witness:
  "blockNumber_resp (stuckEnv 10) = Inr 10
   \<and> expectedBlockNumber (readerAt 1) = 1
   \<and> int (length (fst (snd (readBlocksRun (stuckEnv 10) (readerAt 1))))) \<le> 10
   \<and> distinct (map fst (fst (snd (readBlocksRun (stuckEnv 10) (readerAt 1)))))"
proof -
  let ?run = "readBlocksRun (stuckEnv 10) (readerAt 1)"
  have h: "blockNumber_resp (stuckEnv 10) = Inr 10" by (simp add: stuckEnv_def)
  have c: "expectedBlockNumber (readerAt 1) = 1" by (simp add: readerAt_def)
  have run: "?run = (fst ?run, fst (snd ?run), snd (snd ?run))" by simp
  from pending_buffer_bound[of "stuckEnv 10" 10 "readerAt 1" "fst ?run" "fst (snd ?run)"
         "snd (snd ?run)", THEN conjunct1] h run
  have "\<forall>b \<in> set (fst (snd ?run) # snd (snd ?run)).
          distinct (map fst b)
        \<and> (\<forall>k \<in> fst ` set b. expectedBlockNumber (readerAt 1) \<le> k
               \<and> k \<le> max 10 (expectedBlockNumber (readerAt 1)))
        \<and> int (length b) \<le> max 10 (expectedBlockNumber (readerAt 1))
               - expectedBlockNumber (readerAt 1) + 1"
    by blast
  then have "distinct (map fst (fst (snd ?run)))
        \<and> int (length (fst (snd ?run))) \<le> max 10 (expectedBlockNumber (readerAt 1))
               - expectedBlockNumber (readerAt 1) + 1"
    by simp
  with h c show ?thesis by simp
qed

text \<open>
  The claim as stated fails: at height 10 with the cursor at block 1, when block 1 cannot
  be fetched, the nine blocks 2 to 10 of the two batches are all in the buffer at the end
  of the run, more than the batch size of 5.
\<close>

theorem pending_buffer_counterexample:
  "length (fst (snd (readBlocksRun (stuckEnv 10) (readerAt 1)))) = 9
   \<and> maxParallelBlocks < 9"
proof -
  have "length (map fst (fst (snd (readBlocksRun (stuckEnv 10) (readerAt 1))))) = 9"
    by (simp only: example_stuck_buffer) simp
  then show ?thesis by (simp add: maxParallelBlocks_def)
qed

end
